theory Spec2Isabelle
  imports Complex_Main "HOL-Library.Word" "HOL-Library.AList"
begin

section \<open>Consistent hashing with bounded loads: the model of consistent.go\<close>

text \<open>
  The model follows \<^verbatim>\<open>src/consistent/consistent.go\<close> function by function.
  \<^item> \<^verbatim>\<open>uint64\<close> values (hashes, the partition count) are 64-bit words. The \<^verbatim>\<open>int\<close>
    fields of \<^verbatim>\<open>Config\<close> are 64-bit words too, read as signed (\<open>sint\<close>), so that
    \<^verbatim>\<open>uint64(config.PartitionCount)\<close> keeps the bits. Partition ids and the \<open>count\<close>
    argument are \<^verbatim>\<open>int\<close> parameters: they are \<open>int\<close>.
  \<^item> A \<^verbatim>\<open>[]byte\<close> and a Go string are both byte sequences: \<open>string\<close>.
  \<^item> \<^verbatim>\<open>Member\<close> is an interface with the single method \<^verbatim>\<open>String()\<close>; a member is
    modelled by the value that method returns (as \<^verbatim>\<open>testMember\<close> of the tests is).
  \<^item> The maps \<^verbatim>\<open>ring\<close>, \<^verbatim>\<open>partitions\<close> and \<^verbatim>\<open>loads\<close> are only read, written and
    deleted from by key: they are partial functions. The map \<^verbatim>\<open>members\<close> is also measured
    (\<^verbatim>\<open>len\<close>) and iterated: it is an association list with distinct keys, iterated in list
    order (Go leaves the order open).
  \<^item> A \<^verbatim>\<open>nil\<close> map reads like an empty one: both are \<open>Map.empty\<close>. A \<^verbatim>\<open>nil\<close> interface
    or pointer is \<open>None\<close>, and using it is the panic \<open>NilDereference\<close>.
  \<^item> \<^verbatim>\<open>Load\<close> and the load counters are \<^verbatim>\<open>float64\<close>. The counters only ever hold
    whole numbers (at most the partition count) and are naturals here. \<^verbatim>\<open>Load\<close> is a
    rational, and the one product \<open>(P / n) * Load\<close> is taken exactly: rounding of the product
    is left out (there is none for the values used below, such as \<open>7 * 1.25\<close>).
  \<^item> Every panic is an \<open>Inl\<close> result; the mutex is not modelled.
\<close>

type_synonym uint64 = "64 word"

datatype member = Member (String: string)

datatype error =
    HashFuncNil
  | NotEnoughRoom
  | NilDereference
  | IndexOutOfRange
  | DivideByZero
  | ErrInsufficientMemberCount

record Config =
  HashFunc :: "(string \<Rightarrow> uint64) option"
  PartitionCount :: "64 word"
  ReplicationFactor :: "64 word"
  Load :: rat

record Consistent =
  config :: Config
  hashFunc :: "string \<Rightarrow> uint64"
  sortedSet :: "uint64 list"
  partitionCount :: uint64
  loads :: "string \<rightharpoonup> nat"
  members :: "(string \<times> member) list"
  partitions :: "int \<rightharpoonup> member"
  ring :: "uint64 \<rightharpoonup> member"

definition DefaultPartitionCount :: "64 word" where
  "DefaultPartitionCount = 271"

definition DefaultReplicationFactor :: "64 word" where
  "DefaultReplicationFactor = 20"

definition DefaultLoad :: rat where
  "DefaultLoad = 5 / 4"

subsection \<open>Byte strings handed to the hash function\<close>

text \<open>\<^verbatim>\<open>%d\<close> of a non-negative \<^verbatim>\<open>int\<close>: its decimal digits.\<close>

fun itoa :: "nat \<Rightarrow> string" where
  "itoa n = (if n < 10 then [char_of (48 + n)]
             else itoa (n div 10) @ [char_of (48 + n mod 10)])"

declare itoa.simps [simp del]

text \<open>\<^verbatim>\<open>[]byte(fmt.Sprintf("%s%d", name, i))\<close>\<close>

definition vnode_key :: "string \<Rightarrow> nat \<Rightarrow> string" where
  "vnode_key name i = name @ itoa i"

text \<open>\<^verbatim>\<open>binary.LittleEndian.PutUint64(bs, partID)\<close>: eight bytes, lowest first.\<close>

definition PutUint64 :: "uint64 \<Rightarrow> string" where
  "PutUint64 v = map (\<lambda>k. char_of (unat (drop_bit (8 * k) v))) [0..<8]"

subsection \<open>averageLoad\<close>

text \<open>
  \<^verbatim>\<open>float64(c.partitionCount/uint64(len(c.members))) * c.config.Load\<close>, then
  \<^verbatim>\<open>math.Ceil\<close>. The division is the one of \<^verbatim>\<open>uint64\<close>. The result is a whole number,
  returned as an \<open>int\<close>.
\<close>

definition averageLoad :: "Consistent \<Rightarrow> int" where
  "averageLoad c =
     (if length (members c) = 0 then 0
      else \<lceil>of_nat (unat (partitionCount c div of_nat (length (members c)))) * Load (config c)\<rceil>)"


subsection \<open>distributeWithLoad and distributePartitions\<close>

text \<open>Reading \<^verbatim>\<open>loads[name]\<close>: a missing key reads as zero.\<close>

definition load_of :: "(string \<rightharpoonup> nat) \<Rightarrow> string \<Rightarrow> nat" where
  "load_of ls name = (case ls name of None \<Rightarrow> 0 | Some l \<Rightarrow> l)"

text \<open>
  The probe loop of \<^verbatim>\<open>distributeWithLoad\<close>; \<open>count\<close> is its counter before the
  increment at the top of the body.
\<close>

function probe ::
  "Consistent \<Rightarrow> int \<Rightarrow> int \<Rightarrow> nat \<Rightarrow> nat \<Rightarrow> (int \<rightharpoonup> member) \<Rightarrow> (string \<rightharpoonup> nat)
    \<Rightarrow> error + (int \<rightharpoonup> member) \<times> (string \<rightharpoonup> nat)" where
  "probe c avgLoad partID count idx parts ls =
     (if count + 1 \<ge> length (sortedSet c) then Inl NotEnoughRoom
      else if idx \<ge> length (sortedSet c) then Inl IndexOutOfRange
      else (case ring c (sortedSet c ! idx) of
              None \<Rightarrow> Inl NilDereference
            | Some m \<Rightarrow>
                if int (load_of ls (String m)) + 1 \<le> avgLoad
                then Inr (parts(partID \<mapsto> m), ls(String m \<mapsto> load_of ls (String m) + 1))
                else probe c avgLoad partID (count + 1)
                       (if idx + 1 \<ge> length (sortedSet c) then 0 else idx + 1) parts ls))"
  by pat_completeness auto
termination
  by (relation "measure (\<lambda>(c, avgLoad, partID, count, idx, parts, ls). length (sortedSet c) - count)")
     auto

declare probe.simps [simp del]

definition distributeWithLoad ::
  "Consistent \<Rightarrow> int \<Rightarrow> nat \<Rightarrow> (int \<rightharpoonup> member) \<Rightarrow> (string \<rightharpoonup> nat)
    \<Rightarrow> error + (int \<rightharpoonup> member) \<times> (string \<rightharpoonup> nat)" where
  "distributeWithLoad c partID idx parts ls = probe c (averageLoad c) partID 0 idx parts ls"

text \<open>
  \<^verbatim>\<open>sort.Search(n, f)\<close> of the Go library: binary search for the least index in
  \<open>[0, n)\<close> where \<open>f\<close> holds, \<open>n\<close> when there is none.
\<close>

function search_loop :: "nat \<Rightarrow> nat \<Rightarrow> (nat \<Rightarrow> bool) \<Rightarrow> nat" where
  "search_loop i j f =
     (if i < j then (let h = (i + j) div 2 in
                       if \<not> f h then search_loop (h + 1) j f else search_loop i h f)
      else i)"
  by pat_completeness auto
termination
  by (relation "measure (\<lambda>(i, j, f). j - i)") auto

declare search_loop.simps [simp del]

definition Search :: "nat \<Rightarrow> (nat \<Rightarrow> bool) \<Rightarrow> nat" where
  "Search n f = search_loop 0 n f"

text \<open>\<^verbatim>\<open>int(partID)\<close> for a \<^verbatim>\<open>uint64\<close>: the same 64 bits read as signed.\<close>

definition int_of_uint64 :: "uint64 \<Rightarrow> int" where
  "int_of_uint64 w = sint w"

text \<open>The body of the loop of \<^verbatim>\<open>distributePartitions\<close> for one \<open>partID\<close>.\<close>

definition place :: "Consistent \<Rightarrow> nat \<Rightarrow> (int \<rightharpoonup> member) \<times> (string \<rightharpoonup> nat)
    \<Rightarrow> error + (int \<rightharpoonup> member) \<times> (string \<rightharpoonup> nat)" where
  "place c partID acc =
     (let key = hashFunc c (PutUint64 (of_nat partID));
          idx = Search (length (sortedSet c)) (\<lambda>i. sortedSet c ! i \<ge> key);
          idx = (if idx \<ge> length (sortedSet c) then 0 else idx)
      in distributeWithLoad c (int_of_uint64 (of_nat partID)) idx (fst acc) (snd acc))"

text \<open>The loop itself, over the partition ids still to place; a panic ends it.\<close>

fun distribute_loop :: "Consistent \<Rightarrow> nat list \<Rightarrow> (int \<rightharpoonup> member) \<times> (string \<rightharpoonup> nat)
    \<Rightarrow> error + (int \<rightharpoonup> member) \<times> (string \<rightharpoonup> nat)" where
  "distribute_loop c [] acc = Inr acc"
| "distribute_loop c (partID # rest) acc =
     (case place c partID acc of
        Inl e \<Rightarrow> Inl e
      | Inr acc' \<Rightarrow> distribute_loop c rest acc')"

definition distributePartitions :: "Consistent \<Rightarrow> error + Consistent" where
  "distributePartitions c =
     (case distribute_loop c [0..<unat (partitionCount c)] (Map.empty, Map.empty) of
        Inl e \<Rightarrow> Inl e
      | Inr (parts, ls) \<Rightarrow> Inr (c\<lparr>partitions := parts, loads := ls\<rparr>))"

subsection \<open>add, Add, Remove, New\<close>

definition add_step :: "member \<Rightarrow> nat \<Rightarrow> Consistent \<Rightarrow> Consistent" where
  "add_step m i c =
     (let h = hashFunc c (vnode_key (String m) i)
      in c\<lparr>ring := (ring c)(h \<mapsto> m), sortedSet := sortedSet c @ [h]\<rparr>)"

definition add :: "Consistent \<Rightarrow> member \<Rightarrow> Consistent" where
  "add c m =
     (let c1 = fold (add_step m) [0..<nat (sint (ReplicationFactor (config c)))] c
      in c1\<lparr>sortedSet := sort (sortedSet c1),
            members := AList.update (String m) m (members c1)\<rparr>)"

definition Add :: "Consistent \<Rightarrow> member \<Rightarrow> error + Consistent" where
  "Add c m =
     (if map_of (members c) (String m) \<noteq> None then Inr c
      else distributePartitions (add c m))"

text \<open>\<^verbatim>\<open>delSlice\<close> cuts out the first occurrence of \<open>val\<close>, if there is one.\<close>

definition delSlice :: "Consistent \<Rightarrow> uint64 \<Rightarrow> Consistent" where
  "delSlice c val = c\<lparr>sortedSet := remove1 val (sortedSet c)\<rparr>"

definition remove_step :: "string \<Rightarrow> nat \<Rightarrow> Consistent \<Rightarrow> Consistent" where
  "remove_step name i c =
     (let h = hashFunc c (vnode_key name i)
      in delSlice (c\<lparr>ring := (ring c)(h := None)\<rparr>) h)"

definition Remove :: "Consistent \<Rightarrow> string \<Rightarrow> error + Consistent" where
  "Remove c name =
     (if map_of (members c) name = None then Inr c
      else (let c1 = fold (remove_step name) [0..<nat (sint (ReplicationFactor (config c)))] c;
                c2 = c1\<lparr>members := AList.delete name (members c1)\<rparr>
            in if length (members c2) = 0 then Inr (c2\<lparr>partitions := Map.empty\<rparr>)
               else distributePartitions c2))"

text \<open>
  \<^verbatim>\<open>New\<close>: the argument is \<open>None\<close> for a \<^verbatim>\<open>nil\<close> slice, \<open>Some ms\<close> otherwise (also when
  \<open>ms\<close> is empty); ranging over either runs the loop over its elements.
\<close>

definition with_defaults :: "Config \<Rightarrow> Config" where
  "with_defaults cfg =
     (let cfg = (if PartitionCount cfg = 0 then cfg\<lparr>PartitionCount := DefaultPartitionCount\<rparr> else cfg);
          cfg = (if ReplicationFactor cfg = 0
                 then cfg\<lparr>ReplicationFactor := DefaultReplicationFactor\<rparr> else cfg);
          cfg = (if Load cfg = 0 then cfg\<lparr>Load := DefaultLoad\<rparr> else cfg)
      in cfg)"

text \<open>The struct literal of \<^verbatim>\<open>New\<close>, with \<^verbatim>\<open>c.hashFunc\<close> set.\<close>

definition empty_ring :: "(string \<Rightarrow> uint64) \<Rightarrow> Config \<Rightarrow> Consistent" where
  "empty_ring hf cfg =
     \<lparr>config = cfg, hashFunc = hf, sortedSet = [], partitionCount = PartitionCount cfg,
      loads = Map.empty, members = [], partitions = Map.empty, ring = Map.empty\<rparr>"

text \<open>The loop \<^verbatim>\<open>for _, member := range members { c.add(member) }\<close>.\<close>

definition add_all :: "member list \<Rightarrow> Consistent \<Rightarrow> Consistent" where
  "add_all ms c = fold (\<lambda>m c. add c m) ms c"

definition New :: "member list option \<Rightarrow> Config \<Rightarrow> error + Consistent" where
  "New ms cfg =
     (case HashFunc cfg of
        None \<Rightarrow> Inl HashFuncNil
      | Some hf \<Rightarrow>
          (let c = empty_ring hf (with_defaults cfg);
               c = add_all (case ms of None \<Rightarrow> [] | Some l \<Rightarrow> l) c
           in if ms \<noteq> None then distributePartitions c else Inr c))"

subsection \<open>Lookups\<close>

definition FindPartitionID :: "Consistent \<Rightarrow> string \<Rightarrow> error + int" where
  "FindPartitionID c key =
     (if partitionCount c = 0 then Inl DivideByZero
      else Inr (int_of_uint64 (hashFunc c key mod partitionCount c)))"

definition getPartitionOwner :: "Consistent \<Rightarrow> int \<Rightarrow> member option" where
  "getPartitionOwner c partID =
     (case partitions c partID of None \<Rightarrow> None | Some m \<Rightarrow> Some m)"

definition GetPartitionOwner :: "Consistent \<Rightarrow> int \<Rightarrow> member option" where
  "GetPartitionOwner c partID = getPartitionOwner c partID"

definition LocateKey :: "Consistent \<Rightarrow> string \<Rightarrow> error + member option" where
  "LocateKey c key =
     (case FindPartitionID c key of
        Inl e \<Rightarrow> Inl e
      | Inr partID \<Rightarrow> Inr (GetPartitionOwner c partID))"

text \<open>
  The first loop of \<^verbatim>\<open>getClosestN\<close>: hash every member name. \<^verbatim>\<open>owner.String()\<close> is
  called in each round, which panics on a \<^verbatim>\<open>nil\<close> owner.
\<close>

fun hash_names :: "Consistent \<Rightarrow> member option \<Rightarrow> (string \<times> member) list
    \<Rightarrow> uint64 \<times> uint64 list \<times> (uint64 \<rightharpoonup> member)
    \<Rightarrow> error + uint64 \<times> uint64 list \<times> (uint64 \<rightharpoonup> member)" where
  "hash_names c owner [] acc = Inr acc"
| "hash_names c owner ((name, m) # rest) (ownerKey, keys, kMems) =
     (case owner of
        None \<Rightarrow> Inl NilDereference
      | Some ow \<Rightarrow>
          (let key = hashFunc c name
           in hash_names c owner rest
                (if name = String ow then key else ownerKey, keys @ [key], kMems(key \<mapsto> m))))"

text \<open>The loop that looks for \<open>ownerKey\<close>: the index it stops at, and whether it broke out.\<close>

function find_owner :: "uint64 list \<Rightarrow> uint64 \<Rightarrow> nat \<Rightarrow> nat \<times> bool" where
  "find_owner keys ownerKey idx =
     (if idx < length keys
      then (if keys ! idx = ownerKey then (idx, True) else find_owner keys ownerKey (idx + 1))
      else (idx, False))"
  by pat_completeness auto
termination
  by (relation "measure (\<lambda>(keys, ownerKey, idx). length keys - idx)") auto

declare find_owner.simps [simp del]

text \<open>The loop that collects the following members until \<open>count\<close> are there.\<close>

function closest_loop :: "uint64 list \<Rightarrow> (uint64 \<rightharpoonup> member) \<Rightarrow> int \<Rightarrow> nat \<Rightarrow> member list
    \<Rightarrow> error + member list" where
  "closest_loop keys kMems count idx res =
     (if int (length res) < count
      then (let idx = idx + 1;
                idx = (if idx \<ge> length keys then 0 else idx)
            in if idx \<ge> length keys then Inl IndexOutOfRange
               else (case kMems (keys ! idx) of
                       None \<Rightarrow> Inl NilDereference
                     | Some m \<Rightarrow> closest_loop keys kMems count idx (res @ [m])))
      else Inr res)"
  by pat_completeness auto
termination
  by (relation "measure (\<lambda>(keys, kMems, count, idx, res). nat (count - int (length res)))") auto

declare closest_loop.simps [simp del]

definition getClosestN :: "Consistent \<Rightarrow> int \<Rightarrow> int \<Rightarrow> error + member list" where
  "getClosestN c partID count =
     (if count > int (length (members c)) then Inl ErrInsufficientMemberCount
      else (let owner = getPartitionOwner c partID
            in case hash_names c owner (members c) (0, [], Map.empty) of
                 Inl e \<Rightarrow> Inl e
               | Inr (ownerKey, keys, kMems) \<Rightarrow>
                   (let keys = sort keys;
                        (idx, found) = find_owner keys ownerKey 0
                    in if found
                       then (case kMems (keys ! idx) of
                               None \<Rightarrow> Inl NilDereference
                             | Some m \<Rightarrow> closest_loop keys kMems count idx [m])
                       else closest_loop keys kMems count idx [])))"

definition GetClosestN :: "Consistent \<Rightarrow> string \<Rightarrow> int \<Rightarrow> error + member list" where
  "GetClosestN c key count =
     (case FindPartitionID c key of
        Inl e \<Rightarrow> Inl e
      | Inr partID \<Rightarrow> getClosestN c partID count)"

definition GetClosestNForPartition :: "Consistent \<Rightarrow> int \<Rightarrow> int \<Rightarrow> error + member list" where
  "GetClosestNForPartition c partID count = getClosestN c partID count"

subsection \<open>Sequences of membership changes\<close>

datatype call = CallAdd member | CallRemove string

fun exec :: "Consistent \<Rightarrow> call list \<Rightarrow> error + Consistent" where
  "exec c [] = Inr c"
| "exec c (CallAdd m # rest) =
     (case Add c m of Inl e \<Rightarrow> Inl e | Inr c' \<Rightarrow> exec c' rest)"
| "exec c (CallRemove name # rest) =
     (case Remove c name of Inl e \<Rightarrow> Inl e | Inr c' \<Rightarrow> exec c' rest)"

text \<open>The states a caller can hold: built by \<^verbatim>\<open>New\<close>, then changed by calls that returned.\<close>

inductive reachable :: "Consistent \<Rightarrow> bool" where
  reachable_New: "New ms cfg = Inr c \<Longrightarrow> reachable c"
| reachable_Add: "reachable c \<Longrightarrow> Add c m = Inr c' \<Longrightarrow> reachable c'"
| reachable_Remove: "reachable c \<Longrightarrow> Remove c name = Inr c' \<Longrightarrow> reachable c'"

subsection \<open>Invariants\<close>

text \<open>The key under which \<^verbatim>\<open>distributePartitions\<close> files partition \<open>p\<close>.\<close>

definition part_key :: "nat \<Rightarrow> int" where
  "part_key p = int_of_uint64 (of_nat p)"

text \<open>The names of the current members.\<close>

definition names :: "Consistent \<Rightarrow> string set" where
  "names c = fst ` set (members c)"

text \<open>
  What holds of the tables under construction after \<open>k\<close> rounds of the loop of
  \<^verbatim>\<open>distributePartitions\<close>.
\<close>

definition loop_inv :: "Consistent \<Rightarrow> (int \<rightharpoonup> member) \<Rightarrow> (string \<rightharpoonup> nat) \<Rightarrow> nat \<Rightarrow> bool" where
  "loop_inv c parts ls k \<longleftrightarrow>
     (\<forall>p m. parts p = Some m \<longrightarrow> m \<in> ran (ring c)) \<and>
     dom ls = String ` ran parts \<and>
     finite (dom ls) \<and>
     (\<Sum>n\<in>dom ls. the (ls n)) = k \<and>
     (\<forall>n. load_of ls n = 0 \<or> int (load_of ls n) \<le> averageLoad c)"

text \<open>
  The member map: an association list without repeated keys, each member filed under its
  own name.
\<close>

definition members_inv :: "Consistent \<Rightarrow> bool" where
  "members_inv c \<longleftrightarrow>
     distinct (map fst (members c)) \<and> (\<forall>n m. map_of (members c) n = Some m \<longrightarrow> String m = n)"

text \<open>Every ring entry is one of the virtual nodes of a current member.\<close>

definition ring_inv :: "Consistent \<Rightarrow> bool" where
  "ring_inv c \<longleftrightarrow>
     (\<forall>h m. ring c h = Some m \<longrightarrow>
        String m \<in> names c \<and>
        (\<exists>i<nat (sint (ReplicationFactor (config c))). h = hashFunc c (vnode_key (String m) i)))"

definition ring_ok :: "Consistent \<Rightarrow> bool" where
  "ring_ok c \<longleftrightarrow> members_inv c \<and> ring_inv c"

text \<open>
  The tables between calls: without members the partition table is empty; with members it
  covers every partition, its owners are members, and the load table has a key for each
  owner.
\<close>

definition table_inv :: "Consistent \<Rightarrow> bool" where
  "table_inv c \<longleftrightarrow>
     (if members c = [] then partitions c = Map.empty
      else dom (partitions c) = part_key ` {0..<unat (partitionCount c)} \<and>
           (\<forall>p m. partitions c p = Some m \<longrightarrow> String m \<in> names c) \<and>
           dom (loads c) = String ` ran (partitions c))"

definition state_inv :: "Consistent \<Rightarrow> bool" where
  "state_inv c \<longleftrightarrow> ring_ok c \<and> table_inv c \<and> partitionCount c \<noteq> 0"

text \<open>\<^verbatim>\<open>kMems\<close> as the first loop of \<^verbatim>\<open>getClosestN\<close> fills it.\<close>

definition kmems_of :: "Consistent \<Rightarrow> (string \<times> member) list \<Rightarrow> (uint64 \<rightharpoonup> member) \<Rightarrow> (uint64 \<rightharpoonup> member)" where
  "kmems_of c al km = fold (\<lambda>(n, m) km. km(hashFunc c n \<mapsto> m)) al km"

subsection \<open>Test data\<close>

text \<open>
  A small multiplicative string hash stands in for the pluggable \<^verbatim>\<open>HashFunc\<close> where a
  concrete one is needed.
\<close>

definition poly_hash :: "string \<Rightarrow> uint64" where
  "poly_hash s = fold (\<lambda>ch h. h * 31 + of_nat (of_char ch)) s 0"

definition test_config :: "64 word \<Rightarrow> 64 word \<Rightarrow> Config" where
  "test_config p r =
     \<lparr>HashFunc = Some poly_hash, PartitionCount = p, ReplicationFactor = r, Load = 5 / 4\<rparr>"


text \<open>
  Small rings over the test configuration (\<open>test_config p r\<close>: \<open>p\<close> partitions, \<open>r\<close> virtual
  nodes per member): the empty ring, the ring after \<open>a\<close> was added, and after \<open>b\<close> was
  added too; rings as the loop of \<^verbatim>\<open>New\<close> has filled them before its distribute pass
  (\<open>_pre\<close>); and the tables after three partitions of \<open>ring_ab1_pre\<close> are placed.
\<close>

definition ring0 :: Consistent where
  "ring0 = projr (New None (test_config 2 2))"

definition ring_a :: Consistent where
  "ring_a = projr (Add ring0 (Member ''a''))"

definition ring_ab_pre :: Consistent where
  "ring_ab_pre = add_all [Member ''a'', Member ''b''] (empty_ring poly_hash (with_defaults (test_config 4 2)))"

definition ring_ab :: Consistent where
  "ring_ab = projr (exec ring0 [CallAdd (Member ''a''), CallAdd (Member ''b'')])"

definition ring_ab1_pre :: Consistent where
  "ring_ab1_pre = add_all [Member ''a'', Member ''b''] (empty_ring poly_hash (with_defaults (test_config 4 1)))"

definition placed3 :: "(int \<rightharpoonup> member) \<times> (string \<rightharpoonup> nat)" where
  "placed3 = projr (distribute_loop ring_ab1_pre [0, 1, 2] (Map.empty, Map.empty))"

definition ring_aa_pre :: Consistent where
  "ring_aa_pre = add_all [Member ''a'', Member ''a''] (empty_ring poly_hash (with_defaults (test_config 2 2)))"

section \<open>Basic facts\<close>

lemma isr_collapse: "\<not> isl x \<Longrightarrow> x = Inr (projr x)"
  by (cases x) simp_all

lemma isl_collapse: "isl x \<Longrightarrow> projl x = e \<Longrightarrow> x = Inl e"
  by (cases x) simp_all

lemma distributePartitions_fields:
  assumes "distributePartitions c = Inr c'"
  shows "members c' = members c" and "ring c' = ring c" and "sortedSet c' = sortedSet c"
    and "config c' = config c" and "hashFunc c' = hashFunc c"
    and "partitionCount c' = partitionCount c"
  using assms by (auto simp: distributePartitions_def split: sum.splits prod.splits)

lemma unat_div_of_nat:
  fixes P :: uint64
  assumes "n < 2 ^ 64"
  shows "unat (P div of_nat n) = unat P div n"
proof -
  have "unat (of_nat n :: uint64) = n"
    using assms by (simp add: unat_of_nat)
  then show ?thesis
    by (simp add: unat_div)
qed

lemma String_inj: "String m = String m' \<Longrightarrow> m = m'"
  by (cases m; cases m') simp

lemma with_defaults_PartitionCount: "PartitionCount (with_defaults cfg) \<noteq> 0"
  by (simp add: with_defaults_def Let_def DefaultPartitionCount_def)

lemma with_defaults_HashFunc: "HashFunc (with_defaults cfg) = HashFunc cfg"
  by (simp add: with_defaults_def Let_def)

section \<open>AverageLoad\<close>




section \<open>The placement probe and the distribute pass\<close>

text \<open>
  A probe that returns has given the partition to the owner of some ring entry that had
  room, and has added one to that owner's load.
\<close>

lemma probe_empty: "sortedSet c = [] \<Longrightarrow> probe c avg partID cnt idx parts ls = Inl NotEnoughRoom"
  by (subst probe.simps) simp

lemma probe_Inr:
  assumes "probe c avg partID cnt idx parts ls = Inr (parts', ls')"
  shows "\<exists>m. m \<in> ran (ring c) \<and> int (load_of ls (String m)) + 1 \<le> avg \<and>
             parts' = parts(partID \<mapsto> m) \<and>
             ls' = ls(String m \<mapsto> load_of ls (String m) + 1)"
  using assms
proof (induction c avg partID cnt idx parts ls rule: probe.induct)
  case (1 c avgLoad partID count idx parts ls)
  show ?case
  proof (cases "count + 1 \<ge> length (sortedSet c) \<or> idx \<ge> length (sortedSet c)")
    case True
    with "1.prems" show ?thesis
      by (subst (asm) probe.simps) (auto split: if_splits)
  next
    case False
    show ?thesis
    proof (cases "ring c (sortedSet c ! idx)")
      case None
      with False "1.prems" show ?thesis
        by (subst (asm) probe.simps) (auto split: if_splits)
    next
      case (Some m)
      show ?thesis
      proof (cases "int (load_of ls (String m)) + 1 \<le> avgLoad")
        case True
        with False Some "1.prems" have "parts' = parts(partID \<mapsto> m)"
          and "ls' = ls(String m \<mapsto> load_of ls (String m) + 1)"
          by (subst (asm) probe.simps, simp)+
        moreover have "m \<in> ran (ring c)"
          using Some by (rule ranI)
        ultimately show ?thesis
          using True by blast
      next
        case no_room: False
        with False Some "1.prems"
        have "probe c avgLoad partID (count + 1)
                (if idx + 1 \<ge> length (sortedSet c) then 0 else idx + 1) parts ls = Inr (parts', ls')"
          by (subst (asm) probe.simps) simp
        with "1.IH" [OF _ _ Some no_room] False show ?thesis
          by simp
      qed
    qed
  qed
qed

lemma place_Inr:
  assumes "place c p (parts, ls) = Inr (parts', ls')"
  shows "\<exists>m. m \<in> ran (ring c) \<and> int (load_of ls (String m)) + 1 \<le> averageLoad c \<and>
             parts' = parts(part_key p \<mapsto> m) \<and>
             ls' = ls(String m \<mapsto> load_of ls (String m) + 1)"
proof -
  from assms obtain idx where
    "probe c (averageLoad c) (part_key p) 0 idx parts ls = Inr (parts', ls')"
    unfolding place_def distributeWithLoad_def part_key_def Let_def fst_conv snd_conv by blast
  then show ?thesis
    by (rule probe_Inr)
qed

text \<open>
  One round of the loop of \<^verbatim>\<open>distributePartitions\<close> keeps \<open>loop_inv\<close>: every owner
  comes from the ring, the keys of the load table are the owners' names, the loads add up to
  the number of partitions placed, and no load exceeds \<open>averageLoad\<close>.
\<close>

lemma place_preserves:
  assumes inv: "loop_inv c parts ls k"
    and step: "place c p (parts, ls) = Inr (parts', ls')"
    and fresh: "part_key p \<notin> dom parts"
  shows "loop_inv c parts' ls' (k + 1) \<and> dom parts' = insert (part_key p) (dom parts)"
proof -
  from place_Inr [OF step] obtain m where m: "m \<in> ran (ring c)"
    and room: "int (load_of ls (String m)) + 1 \<le> averageLoad c"
    and parts': "parts' = parts(part_key p \<mapsto> m)"
    and ls': "ls' = ls(String m \<mapsto> load_of ls (String m) + 1)"
    by blast
  have owners: "\<forall>q m'. parts' q = Some m' \<longrightarrow> m' \<in> ran (ring c)"
    using inv m by (auto simp: loop_inv_def parts')
  have "parts (part_key p) = None"
    using fresh by auto
  then have "ran parts' = insert m (ran parts)"
    by (simp add: parts')
  then have keys: "dom ls' = String ` ran parts'"
    using inv by (auto simp: loop_inv_def ls')
  have fin: "finite (dom ls)" and total: "(\<Sum>n\<in>dom ls. the (ls n)) = k"
    using inv unfolding loop_inv_def by blast+
  have fin': "finite (dom ls')"
    using fin by (simp add: ls')
  have total': "(\<Sum>n\<in>dom ls'. the (ls' n)) = k + 1"
  proof (cases "String m \<in> dom ls")
    case True
    then have d: "dom ls' = dom ls"
      by (auto simp: ls')
    have "(\<Sum>n\<in>dom ls. the (ls' n)) =
            the (ls' (String m)) + (\<Sum>n\<in>dom ls - {String m}. the (ls' n))"
      using fin True by (simp add: sum.remove)
    also have "(\<Sum>n\<in>dom ls - {String m}. the (ls' n)) = (\<Sum>n\<in>dom ls - {String m}. the (ls n))"
      by (rule sum.cong) (simp_all add: ls')
    also have "the (ls' (String m)) = the (ls (String m)) + 1"
      using True by (auto simp: ls' load_of_def)
    finally have "(\<Sum>n\<in>dom ls. the (ls' n)) =
                    (the (ls (String m)) + (\<Sum>n\<in>dom ls - {String m}. the (ls n))) + 1"
      by simp
    also have "the (ls (String m)) + (\<Sum>n\<in>dom ls - {String m}. the (ls n)) = (\<Sum>n\<in>dom ls. the (ls n))"
      using fin True by (simp add: sum.remove)
    finally show ?thesis
      using total d by simp
  next
    case False
    then have d: "dom ls' = insert (String m) (dom ls)"
      by (auto simp: ls')
    have "(\<Sum>n\<in>dom ls'. the (ls' n)) = the (ls' (String m)) + (\<Sum>n\<in>dom ls. the (ls' n))"
      using fin False by (simp add: d)
    also have "(\<Sum>n\<in>dom ls. the (ls' n)) = (\<Sum>n\<in>dom ls. the (ls n))"
      using False by (intro sum.cong) (auto simp: ls')
    also have "the (ls' (String m)) = 1"
      using False by (auto simp: ls' load_of_def split: option.splits)
    finally show ?thesis
      using total by simp
  qed
  have bound: "\<forall>n. load_of ls' n = 0 \<or> int (load_of ls' n) \<le> averageLoad c"
  proof
    fix n
    show "load_of ls' n = 0 \<or> int (load_of ls' n) \<le> averageLoad c"
    proof (cases "n = String m")
      case True
      then have "load_of ls' n = load_of ls (String m) + 1"
        by (simp add: ls' load_of_def)
      with room show ?thesis
        by simp
    next
      case False
      then have "load_of ls' n = load_of ls n"
        by (simp add: ls' load_of_def)
      with inv show ?thesis
        by (simp add: loop_inv_def)
    qed
  qed
  show ?thesis
    using owners keys fin' total' bound by (simp add: loop_inv_def parts')
qed

lemma distribute_loop_inv:
  assumes "distribute_loop c ps (parts, ls) = Inr (parts', ls')"
    and "loop_inv c parts ls k"
    and "distinct (map part_key ps)"
    and "part_key ` set ps \<inter> dom parts = {}"
  shows "loop_inv c parts' ls' (k + length ps) \<and> dom parts' = dom parts \<union> part_key ` set ps"
  using assms
proof (induction ps arbitrary: parts ls k)
  case Nil
  then show ?case by simp
next
  case (Cons p ps)
  from Cons.prems(1) obtain parts1 ls1 where step: "place c p (parts, ls) = Inr (parts1, ls1)"
    and rest: "distribute_loop c ps (parts1, ls1) = Inr (parts', ls')"
    by (auto split: sum.splits)
  have fresh: "part_key p \<notin> dom parts"
    using Cons.prems(4) by auto
  from place_preserves [OF Cons.prems(2) step fresh]
  have inv1: "loop_inv c parts1 ls1 (k + 1)" and dom1: "dom parts1 = insert (part_key p) (dom parts)"
    by simp_all
  have "part_key ` set ps \<inter> dom parts1 = {}"
    using Cons.prems(3,4) by (auto simp: dom1)
  with Cons.IH [OF rest inv1] Cons.prems(3)
  have "loop_inv c parts' ls' (k + 1 + length ps) \<and> dom parts' = dom parts1 \<union> part_key ` set ps"
    by simp
  then show ?case
    by (simp add: dom1 add.commute add.left_commute)
qed

subsection \<open>Partition ids\<close>

lemma part_key_inj:
  assumes "p < 2 ^ 64" "q < 2 ^ 64" "part_key p = part_key q"
  shows "p = q"
proof -
  have "(of_nat p :: uint64) = of_nat q"
    using assms(3) unfolding part_key_def int_of_uint64_def by (rule signed_word_eqI)
  then have "take_bit 64 p = take_bit 64 q"
    by (simp add: word_of_nat_eq_iff)
  then show ?thesis
    using assms(1,2) by (simp add: take_bit_nat_eq_self)
qed

lemma distinct_part_keys: "distinct (map part_key [0..<unat (P :: uint64)])"
proof -
  have "unat P < 2 ^ 64"
    using unsigned_less [of P, where 'a = nat] by simp
  then have "inj_on part_key (set [0..<unat P])"
    by (auto intro!: inj_onI part_key_inj)
  then show ?thesis
    by (simp add: distinct_map)
qed

lemma part_key_small: "p < 2 ^ 63 \<Longrightarrow> part_key p = int p"
  unfolding part_key_def int_of_uint64_def
  by (simp add: signed_of_nat signed_take_bit_int_eq_self)

lemma part_key_image_small:
  assumes "n \<le> 2 ^ 63"
  shows "part_key ` {0..<n} = {0..<int n}"
proof -
  have "part_key ` {0..<n} = int ` {0..<n}"
    using assms by (intro image_cong) (simp_all add: part_key_small)
  also have "\<dots> = {0..<int n}"
    by (simp add: image_int_atLeastLessThan)
  finally show ?thesis .
qed

subsection \<open>A pass that returns\<close>

lemma loop_inv_empty: "loop_inv c Map.empty Map.empty 0"
  by (simp add: loop_inv_def load_of_def)

lemma distributePartitions_Inr:
  assumes "distributePartitions c = Inr c'"
  shows "c' = c\<lparr>partitions := partitions c', loads := loads c'\<rparr>"
    and "loop_inv c (partitions c') (loads c') (unat (partitionCount c))"
    and "dom (partitions c') = part_key ` {0..<unat (partitionCount c)}"
proof -
  from assms obtain parts ls where
    loop: "distribute_loop c [0..<unat (partitionCount c)] (Map.empty, Map.empty) = Inr (parts, ls)"
    and c': "c' = c\<lparr>partitions := parts, loads := ls\<rparr>"
    by (auto simp: distributePartitions_def split: sum.splits)
  from distribute_loop_inv [OF loop loop_inv_empty distinct_part_keys]
  have "loop_inv c parts ls (unat (partitionCount c))"
    and "dom parts = part_key ` {0..<unat (partitionCount c)}"
    by simp_all
  then show "loop_inv c (partitions c') (loads c') (unat (partitionCount c))"
    and "dom (partitions c') = part_key ` {0..<unat (partitionCount c)}"
    by (simp_all add: c')
  show "c' = c\<lparr>partitions := partitions c', loads := loads c'\<rparr>"
    by (simp add: c')
qed

lemma names_dom: "names c = dom (map_of (members c))"
  by (simp add: names_def dom_map_of_conv_image_fst)

lemma distributePartitions_table_inv:
  assumes pass: "distributePartitions c = Inr c'" and ring: "ring_inv c"
  shows "dom (partitions c') = part_key ` {0..<unat (partitionCount c')}"
    and "\<forall>p m. partitions c' p = Some m \<longrightarrow> String m \<in> names c'"
    and "dom (loads c') = String ` ran (partitions c')"
proof -
  note inv = distributePartitions_Inr(2) [OF pass]
  show "dom (partitions c') = part_key ` {0..<unat (partitionCount c')}"
    using distributePartitions_Inr(3) [OF pass] distributePartitions_fields(6) [OF pass] by simp
  have "names c' = names c"
    by (simp add: names_def distributePartitions_fields(1) [OF pass])
  moreover have "\<forall>p m. partitions c' p = Some m \<longrightarrow> m \<in> ran (ring c)"
    using inv unfolding loop_inv_def by blast
  moreover have "\<forall>m\<in>ran (ring c). String m \<in> names c"
    using ring by (auto simp: ring_inv_def ran_def)
  ultimately show "\<forall>p m. partitions c' p = Some m \<longrightarrow> String m \<in> names c'"
    by blast
  show "dom (loads c') = String ` ran (partitions c')"
    using inv unfolding loop_inv_def by blast
qed

lemma distributePartitions_state_inv:
  assumes pass: "distributePartitions c = Inr c'" and ok: "ring_ok c" and P: "partitionCount c \<noteq> 0"
  shows "state_inv c'"
proof -
  have "ring_ok c'"
    using ok distributePartitions_fields [OF pass]
    by (simp add: ring_ok_def members_inv_def ring_inv_def names_def)
  moreover have "ring_inv c"
    using ok by (simp add: ring_ok_def)
  then have "members c' \<noteq> [] \<longrightarrow> table_inv c'"
    using distributePartitions_table_inv [OF pass] by (simp add: table_inv_def)
  moreover have "members c' = [] \<longrightarrow> table_inv c'"
  proof
    assume empty: "members c' = []"
    have "ran (ring c) = {}"
    proof (rule ccontr)
      assume "ran (ring c) \<noteq> {}"
      then obtain h m where "ring c h = Some m"
        by (auto simp: ran_def)
      with \<open>ring_inv c\<close> have "String m \<in> names c"
        by (simp add: ring_inv_def)
      then show False
        using empty by (simp add: names_def distributePartitions_fields(1) [OF pass])
    qed
    moreover have "\<forall>p m. partitions c' p = Some m \<longrightarrow> m \<in> ran (ring c)"
      using distributePartitions_Inr(2) [OF pass] unfolding loop_inv_def by blast
    ultimately have "partitions c' = Map.empty"
      by (intro ext) (metis empty_iff option.exhaust)
    with empty show "table_inv c'"
      by (simp add: table_inv_def)
  qed
  ultimately show ?thesis
    using P distributePartitions_fields(6) [OF pass] by (auto simp: state_inv_def)
qed

lemma distribute_empty_ring:
  assumes "sortedSet c = []" "partitionCount c \<noteq> 0"
  shows "distributePartitions c = Inl NotEnoughRoom"
proof -
  have "0 < unat (partitionCount c)"
    using assms(2) by (simp add: unat_gt_0)
  then have "[0..<unat (partitionCount c)] = 0 # [1..<unat (partitionCount c)]"
    by (simp add: upt_conv_Cons)
  then show ?thesis
    using assms(1)
    by (simp add: distributePartitions_def place_def distributeWithLoad_def probe_empty Let_def)
qed

subsection \<open>The probe gives up one node early\<close>

text \<open>
  Claim C2 does not hold of the code. The counter is incremented before it is compared with
  \<^verbatim>\<open>len(c.sortedSet)\<close>, so the probe looks at \<open>len - 1\<close> virtual nodes at most and never at
  the last one in circular order. Two members \<open>a\<close> and \<open>b\<close> with one virtual node each and
  four partitions, whose probes all start at \<open>a\<close>'s node: \<open>AverageLoad\<close> is 3, the first three
  partitions go to \<open>a\<close>, and for the fourth the probe visits \<open>a\<close>'s node only and panics,
  although \<open>b\<close>'s node is in \<open>sortedSet\<close> and \<open>b\<close> has room. With a single virtual node in
  the ring the probe panics before it has visited any node.
\<close>

theorem probe_stops_before_last_node:
  "sortedSet ring_ab1_pre = [3055, 3086] \<and>
   ring ring_ab1_pre 3055 = Some (Member ''a'') \<and> ring ring_ab1_pre 3086 = Some (Member ''b'') \<and>
   averageLoad ring_ab1_pre = 3 \<and>
   \<not> isl (distribute_loop ring_ab1_pre [0, 1, 2] (Map.empty, Map.empty)) \<and>
   load_of (snd placed3) ''a'' = 3 \<and> load_of (snd placed3) ''b'' = 0 \<and>
   int (load_of (snd placed3) ''b'') + 1 \<le> averageLoad ring_ab1_pre \<and>
   place ring_ab1_pre 3 placed3 = Inl NotEnoughRoom \<and>
   New (Some [Member ''a'', Member ''b'']) (test_config 4 1) = Inl NotEnoughRoom \<and>
   New (Some [Member ''a'']) (test_config 1 1) = Inl NotEnoughRoom"
proof -
  have "isl (place ring_ab1_pre 3 placed3) \<and> projl (place ring_ab1_pre 3 placed3) = NotEnoughRoom"
    by code_simp
  then have 1: "place ring_ab1_pre 3 placed3 = Inl NotEnoughRoom"
    by (simp add: isl_collapse)
  have "isl (New (Some [Member ''a'', Member ''b'']) (test_config 4 1)) \<and>
        projl (New (Some [Member ''a'', Member ''b'']) (test_config 4 1)) = NotEnoughRoom"
    by code_simp
  then have 2: "New (Some [Member ''a'', Member ''b'']) (test_config 4 1) = Inl NotEnoughRoom"
    by (simp add: isl_collapse)
  have "isl (New (Some [Member ''a'']) (test_config 1 1)) \<and>
        projl (New (Some [Member ''a'']) (test_config 1 1)) = NotEnoughRoom"
    by code_simp
  then have 3: "New (Some [Member ''a'']) (test_config 1 1) = Inl NotEnoughRoom"
    by (simp add: isl_collapse)
  have "sortedSet ring_ab1_pre = [3055, 3086] \<and>
   ring ring_ab1_pre 3055 = Some (Member ''a'') \<and> ring ring_ab1_pre 3086 = Some (Member ''b'') \<and>
   averageLoad ring_ab1_pre = 3 \<and>
   \<not> isl (distribute_loop ring_ab1_pre [0, 1, 2] (Map.empty, Map.empty)) \<and>
   load_of (snd placed3) ''a'' = 3 \<and> load_of (snd placed3) ''b'' = 0 \<and>
   int (load_of (snd placed3) ''b'') + 1 \<le> averageLoad ring_ab1_pre"
    by code_simp
  with 1 2 3 show ?thesis
    by blast
qed

section \<open>Membership changes keep the ring and the tables consistent\<close>

subsection \<open>add\<close>

lemma fold_add_step:
  fixes c :: Consistent and m :: member
  defines "hs n \<equiv> map (\<lambda>i. hashFunc c (vnode_key (String m) i)) [0..<n]"
  shows "fold (add_step m) [0..<n] c =
           c\<lparr>ring := (\<lambda>h. if h \<in> set (hs n) then Some m else ring c h),
             sortedSet := sortedSet c @ hs n\<rparr>"
proof (induction n)
  case 0
  then show ?case
    by (simp add: hs_def)
next
  case (Suc n)
  have "fold (add_step m) [0..<Suc n] c = add_step m n (fold (add_step m) [0..<n] c)"
    by simp
  also have "\<dots> = c\<lparr>ring := (\<lambda>h. if h \<in> set (hs (Suc n)) then Some m else ring c h),
                      sortedSet := sortedSet c @ hs (Suc n)\<rparr>"
    by (simp add: Suc add_step_def Let_def hs_def fun_eq_iff)
  finally show ?case .
qed

lemma add_fields:
  shows "config (add c m) = config c" and "hashFunc (add c m) = hashFunc c"
    and "partitionCount (add c m) = partitionCount c"
    and "partitions (add c m) = partitions c" and "loads (add c m) = loads c"
    and "members (add c m) = AList.update (String m) m (members c)"
    and "ring (add c m) =
           (\<lambda>h. if \<exists>i<nat (sint (ReplicationFactor (config c))). h = hashFunc c (vnode_key (String m) i)
                then Some m else ring c h)"
    and "sortedSet (add c m) =
           sort (sortedSet c @ map (\<lambda>i. hashFunc c (vnode_key (String m) i))
                                  [0..<nat (sint (ReplicationFactor (config c)))])"
  by (auto simp: add_def fold_add_step Let_def fun_eq_iff)

lemma add_members: "members (add c m) = AList.update (String m) m (members c)"
proof -
  have "members (fold (add_step m) xs c) = members c" for xs
    by (induction xs arbitrary: c) (simp_all add: add_step_def Let_def)
  then show ?thesis
    by (simp add: add_def Let_def)
qed

lemma add_ring_ok:
  assumes "ring_ok c"
  shows "ring_ok (add c m)"
proof -
  have mem: "members_inv (add c m)"
    using assms
    by (auto simp: ring_ok_def members_inv_def add_fields distinct_update update_conv' split: if_splits)
  have names: "names (add c m) = insert (String m) (names c)"
    by (simp add: names_def add_fields dom_update)
  have "ring_inv (add c m)"
    using assms unfolding ring_ok_def ring_inv_def names
    by (auto simp: add_fields split: if_splits)
  with mem show ?thesis
    by (simp add: ring_ok_def)
qed

lemma add_all_fields:
  shows "config (add_all ms c) = config c" and "hashFunc (add_all ms c) = hashFunc c"
    and "partitionCount (add_all ms c) = partitionCount c"
    and "partitions (add_all ms c) = partitions c" and "loads (add_all ms c) = loads c"
  by (induction ms arbitrary: c; simp add: add_all_def add_fields)+

lemma add_all_ring_ok: "ring_ok c \<Longrightarrow> ring_ok (add_all ms c)"
  by (induction ms arbitrary: c) (simp_all add: add_all_def add_ring_ok)

lemma empty_ring_ok: "ring_ok (empty_ring hf cfg)"
  by (simp add: ring_ok_def members_inv_def ring_inv_def empty_ring_def)

subsection \<open>Remove\<close>

lemma fold_remove_step:
  fixes c :: Consistent and name :: string
  defines "hs n \<equiv> map (\<lambda>i. hashFunc c (vnode_key name i)) [0..<n]"
  shows "fold (remove_step name) [0..<n] c =
           c\<lparr>ring := (\<lambda>h. if h \<in> set (hs n) then None else ring c h),
             sortedSet := fold remove1 (hs n) (sortedSet c)\<rparr>"
proof (induction n)
  case 0
  then show ?case
    by (simp add: hs_def)
next
  case (Suc n)
  have "fold (remove_step name) [0..<Suc n] c =
          remove_step name n (fold (remove_step name) [0..<n] c)"
    by simp
  also have "\<dots> = c\<lparr>ring := (\<lambda>h. if h \<in> set (hs (Suc n)) then None else ring c h),
                      sortedSet := fold remove1 (hs (Suc n)) (sortedSet c)\<rparr>"
    by (simp add: Suc remove_step_def delSlice_def Let_def hs_def fun_eq_iff)
  finally show ?case .
qed

text \<open>
  The three ways \<^verbatim>\<open>Remove\<close> returns: the early return, the reset after the last member
  has gone, and the distribute pass.
\<close>

lemma Remove_cases:
  assumes "Remove c name = Inr c'"
  obtains (absent) "map_of (members c) name = None" "c' = c"
  | (last) c2 where "map_of (members c) name \<noteq> None"
      "c2 = (fold (remove_step name) [0..<nat (sint (ReplicationFactor (config c)))] c)
              \<lparr>members := AList.delete name (members c)\<rparr>"
      "members c2 = []" "c' = c2\<lparr>partitions := Map.empty\<rparr>"
  | (pass) c2 where "map_of (members c) name \<noteq> None"
      "c2 = (fold (remove_step name) [0..<nat (sint (ReplicationFactor (config c)))] c)
              \<lparr>members := AList.delete name (members c)\<rparr>"
      "members c2 \<noteq> []" "distributePartitions c2 = Inr c'"
  using assms
  by (auto simp: Remove_def Let_def fold_remove_step split: if_splits)

lemma removed_ring_ok:
  assumes ok: "ring_ok c"
    and c2: "c2 = (fold (remove_step name) [0..<nat (sint (ReplicationFactor (config c)))] c)
                    \<lparr>members := AList.delete name (members c)\<rparr>"
  shows "ring_ok c2" and "partitionCount c2 = partitionCount c" and "loads c2 = loads c"
proof -
  have fields: "config c2 = config c" "hashFunc c2 = hashFunc c"
    "members c2 = AList.delete name (members c)"
    and ring2: "ring c2 = (\<lambda>h. if \<exists>i<nat (sint (ReplicationFactor (config c))).
                                     h = hashFunc c (vnode_key name i)
                              then None else ring c h)"
    by (auto simp: c2 fold_remove_step fun_eq_iff)
  show "partitionCount c2 = partitionCount c" and "loads c2 = loads c"
    by (simp_all add: c2 fold_remove_step)
  have mem: "members_inv c2"
    using ok by (auto simp: ring_ok_def members_inv_def fields distinct_delete delete_conv')
  have names2: "names c2 = names c - {name}"
    by (auto simp: names_dom fields delete_conv')
  have "ring_inv c2"
    unfolding ring_inv_def
  proof (intro allI impI)
    fix h m
    assume "ring c2 h = Some m"
    then have kept: "\<not> (\<exists>i<nat (sint (ReplicationFactor (config c))). h = hashFunc c (vnode_key name i))"
      and old: "ring c h = Some m"
      by (auto simp: ring2 split: if_splits)
    from ok old have in_names: "String m \<in> names c"
      and vnode: "\<exists>i<nat (sint (ReplicationFactor (config c))). h = hashFunc c (vnode_key (String m) i)"
      by (auto simp: ring_ok_def ring_inv_def)
    from kept vnode have "String m \<noteq> name"
      by auto
    with in_names vnode
    show "String m \<in> names c2 \<and>
          (\<exists>i<nat (sint (ReplicationFactor (config c2))). h = hashFunc c2 (vnode_key (String m) i))"
      by (simp add: names2 fields)
  qed
  with mem show "ring_ok c2"
    by (simp add: ring_ok_def)
qed

subsection \<open>Every reachable state satisfies the invariant\<close>

lemma Remove_state_inv:
  assumes inv: "state_inv c" and rm: "Remove c name = Inr c'"
  shows "state_inv c'"
  using rm
proof (cases rule: Remove_cases)
  case absent
  with inv show ?thesis by simp
next
  case (last c2)
  have "ring_ok c2" and "partitionCount c2 = partitionCount c"
    using removed_ring_ok [OF _ last(2)] inv by (simp_all add: state_inv_def)
  then show ?thesis
    using last(3,4) inv
    by (simp add: state_inv_def table_inv_def ring_ok_def members_inv_def ring_inv_def names_def)
next
  case (pass c2)
  have "ring_ok c2" and "partitionCount c2 = partitionCount c"
    using removed_ring_ok [OF _ pass(2)] inv by (simp_all add: state_inv_def)
  then show ?thesis
    using distributePartitions_state_inv [OF pass(4)] inv by (simp add: state_inv_def)
qed

lemma Add_state_inv:
  assumes inv: "state_inv c" and add: "Add c m = Inr c'"
  shows "state_inv c'"
proof (cases "map_of (members c) (String m) = None")
  case False
  with add inv show ?thesis
    by (simp add: Add_def)
next
  case True
  with add have "distributePartitions (add c m) = Inr c'"
    by (simp add: Add_def)
  then show ?thesis
    using inv by (intro distributePartitions_state_inv [of "add c m"])
      (simp_all add: state_inv_def add_ring_ok add_fields)
qed

lemma New_state_inv:
  assumes "New ms cfg = Inr c"
  shows "state_inv c"
proof -
  from assms obtain hf where hf: "HashFunc cfg = Some hf"
    by (auto simp: New_def split: option.splits)
  let ?c0 = "empty_ring hf (with_defaults cfg)"
  have P: "partitionCount ?c0 \<noteq> 0"
    by (simp add: empty_ring_def with_defaults_PartitionCount)
  show ?thesis
  proof (cases ms)
    case None
    with assms hf have "c = ?c0"
      by (simp add: New_def add_all_def)
    then show ?thesis
      using P empty_ring_ok [of hf "with_defaults cfg"]
      by (simp add: state_inv_def table_inv_def empty_ring_def)
  next
    case (Some l)
    with assms hf have "distributePartitions (add_all l ?c0) = Inr c"
      by (simp add: New_def)
    then show ?thesis
      using P by (intro distributePartitions_state_inv [of "add_all l ?c0"])
        (simp_all add: add_all_ring_ok empty_ring_ok add_all_fields)
  qed
qed

lemma reachable_state_inv: "reachable c \<Longrightarrow> state_inv c"
  by (induction rule: reachable.induct) (auto intro: New_state_inv Add_state_inv Remove_state_inv)

lemma exec_reachable: "reachable c \<Longrightarrow> exec c calls = Inr c' \<Longrightarrow> reachable c'"
proof (induction calls arbitrary: c)
  case Nil
  then show ?case by simp
next
  case (Cons call calls)
  show ?case
  proof (cases call)
    case (CallAdd m)
    with Cons.prems obtain c1 where "Add c m = Inr c1" "exec c1 calls = Inr c'"
      by (auto split: sum.splits)
    with Cons.prems(1) Cons.IH show ?thesis
      by (blast intro: reachable_Add)
  next
    case (CallRemove name)
    with Cons.prems obtain c1 where "Remove c name = Inr c1" "exec c1 calls = Inr c'"
      by (auto split: sum.splits)
    with Cons.prems(1) Cons.IH show ?thesis
      by (blast intro: reachable_Remove)
  qed
qed

lemma reachable_ring0: "reachable ring0"
proof -
  have "\<not> isl (New None (test_config 2 2))"
    by code_simp
  then have "New None (test_config 2 2) = Inr ring0"
    unfolding ring0_def by (rule isr_collapse)
  then show ?thesis
    by (rule reachable_New)
qed

section \<open>The load bound\<close>

lemma averageLoad_le_bound:
  fixes P n :: nat and L :: rat
  assumes "1 \<le> \<lceil>of_nat (P div n) * L\<rceil>"
  shows "\<lceil>of_nat (P div n) * L\<rceil> \<le> \<lceil>of_int \<lceil>of_nat P / of_nat n :: rat\<rceil> * L\<rceil>"
proof -
  have pos: "0 < (of_nat (P div n) :: rat) * L"
    using assms by (simp add: less_ceiling_iff)
  have "0 < L"
  proof (rule ccontr)
    assume "\<not> 0 < L"
    then have "(of_nat (P div n) :: rat) * L \<le> 0"
      by (simp add: mult_nonneg_nonpos)
    with pos show False by simp
  qed
  have "(of_nat (P div n) :: rat) = of_int \<lfloor>of_nat P / of_nat n :: rat\<rfloor>"
    by (simp add: floor_divide_of_nat_eq)
  also have "\<dots> \<le> of_int \<lceil>of_nat P / of_nat n :: rat\<rceil>"
    by (simp add: floor_le_ceiling)
  finally have "(of_nat (P div n) :: rat) * L \<le> of_int \<lceil>of_nat P / of_nat n :: rat\<rceil> * L"
    using \<open>0 < L\<close> by (simp add: mult_right_mono)
  then show ?thesis
    by (rule ceiling_mono)
qed

text \<open>
  Claim C3. The pass runs on a ring whose entries all belong to current members
  (\<open>ring_ok\<close>, which holds wherever \<^verbatim>\<open>New\<close>, \<^verbatim>\<open>Add\<close> and \<^verbatim>\<open>Remove\<close> start a pass). If it
  returns and there is at least one member, every load is at most
  \<open>ceil(ceil(P / |M|) * Load)\<close>, and the loads of the members add up to \<open>P\<close>.
\<close>

theorem distribute_load_bound:
  assumes ok: "ring_ok c" and nonempty: "members c \<noteq> []"
    and len: "length (members c) < 2 ^ 64"
    and pass: "distributePartitions c = Inr c'"
  shows "(\<forall>name. int (load_of (loads c') name)
            \<le> \<lceil>of_int \<lceil>of_nat (unat (partitionCount c)) / of_nat (length (members c)) :: rat\<rceil>
                 * Load (config c)\<rceil>) \<and>
         (\<Sum>name\<leftarrow>map fst (members c'). load_of (loads c') name) = unat (partitionCount c)"
proof -
  define P where "P = unat (partitionCount c)"
  define n where "n = length (members c)"
  define ls where "ls = loads c'"
  define bound where "bound = \<lceil>of_int \<lceil>of_nat P / of_nat n :: rat\<rceil> * Load (config c)\<rceil>"
  have avg: "averageLoad c = \<lceil>of_nat (P div n) * Load (config c)\<rceil>"
    using nonempty len by (simp add: averageLoad_def unat_div_of_nat P_def n_def)
  note inv = distributePartitions_Inr(2) [OF pass]
  have fin: "finite (dom ls)" and total: "(\<Sum>x\<in>dom ls. the (ls x)) = P"
    and room: "\<forall>x. load_of ls x = 0 \<or> int (load_of ls x) \<le> averageLoad c"
    and keys: "dom ls = String ` ran (partitions c')"
    and owners: "\<forall>p m. partitions c' p = Some m \<longrightarrow> m \<in> ran (ring c)"
    using inv unfolding loop_inv_def ls_def P_def by blast+
  have up: "averageLoad c \<le> bound" if "1 \<le> averageLoad c"
    using that averageLoad_le_bound [of P n "Load (config c)"] by (simp add: avg bound_def)
  have nonneg: "0 \<le> bound"
  proof (cases "P = 0")
    case True
    then show ?thesis by (simp add: bound_def)
  next
    case False
    with total have "(\<Sum>x\<in>dom ls. the (ls x)) \<noteq> 0"
      by simp
    then obtain x where x: "x \<in> dom ls" "the (ls x) \<noteq> 0"
      using fin by (auto simp: sum_eq_0_iff)
    then have pos: "load_of ls x \<noteq> 0"
      by (auto simp: load_of_def)
    from room have "load_of ls x = 0 \<or> int (load_of ls x) \<le> averageLoad c" ..
    with pos have le: "int (load_of ls x) \<le> averageLoad c"
      by simp
    from pos have "1 \<le> int (load_of ls x)"
      by simp
    with le have "1 \<le> averageLoad c"
      by linarith
    with up have "1 \<le> bound"
      by simp
    then show ?thesis by simp
  qed
  have bounded: "int (load_of ls x) \<le> bound" for x
  proof (cases "load_of ls x = 0")
    case True
    with nonneg show ?thesis by simp
  next
    case False
    from room have "load_of ls x = 0 \<or> int (load_of ls x) \<le> averageLoad c" ..
    with False have le: "int (load_of ls x) \<le> averageLoad c"
      by simp
    from False have "1 \<le> int (load_of ls x)"
      by simp
    with le have "1 \<le> averageLoad c"
      by linarith
    with up le show ?thesis by simp
  qed
  have "ring_inv c" and "members_inv c"
    using ok by (simp_all add: ring_ok_def)
  have sub: "dom ls \<subseteq> names c'"
    using distributePartitions_table_inv(2) [OF pass \<open>ring_inv c\<close>] keys by (auto simp: ran_def)
  have mem': "members c' = members c"
    by (rule distributePartitions_fields(1) [OF pass])
  have dist: "distinct (map fst (members c'))"
    using \<open>members_inv c\<close> by (simp add: members_inv_def mem')
  have "(\<Sum>name\<leftarrow>map fst (members c'). load_of ls name) = (\<Sum>name\<in>names c'. load_of ls name)"
    using sum_list_distinct_conv_sum_set [OF dist, of "load_of ls"] by (simp add: names_def)
  also have "\<dots> = (\<Sum>name\<in>dom ls. load_of ls name)"
    using sub by (intro sum.mono_neutral_right) (auto simp: names_def load_of_def split: option.splits)
  also have "\<dots> = (\<Sum>x\<in>dom ls. the (ls x))"
    by (intro sum.cong) (auto simp: load_of_def)
  finally have "(\<Sum>name\<leftarrow>map fst (members c'). load_of ls name) = P"
    using total by simp
  with bounded show ?thesis
    by (simp add: ls_def bound_def P_def n_def)
qed

text \<open>
  Two members, two virtual nodes each, four partitions: the pass returns with loads 3 and 1.
\<close>

theorem distribute_load_bound_witness:
  "ring_ok ring_ab_pre \<and> members ring_ab_pre \<noteq> [] \<and> length (members ring_ab_pre) < 2 ^ 64 \<and>
   distributePartitions ring_ab_pre = Inr (projr (distributePartitions ring_ab_pre)) \<and>
   (\<forall>name. int (load_of (loads (projr (distributePartitions ring_ab_pre))) name)
      \<le> \<lceil>of_int \<lceil>of_nat (unat (partitionCount ring_ab_pre)) / of_nat (length (members ring_ab_pre)) :: rat\<rceil>
           * Load (config ring_ab_pre)\<rceil>) \<and>
   (\<Sum>name\<leftarrow>map fst (members (projr (distributePartitions ring_ab_pre))).
       load_of (loads (projr (distributePartitions ring_ab_pre))) name) = unat (partitionCount ring_ab_pre)"
proof -
  have ok: "ring_ok ring_ab_pre"
    unfolding ring_ab_pre_def by (intro add_all_ring_ok empty_ring_ok)
  have ne: "members ring_ab_pre \<noteq> []"
    by code_simp
  have "length (members ring_ab_pre) = 2"
    by code_simp
  then have len: "length (members ring_ab_pre) < 2 ^ 64"
    by simp
  have "\<not> isl (distributePartitions ring_ab_pre)"
    by code_simp
  then have pass: "distributePartitions ring_ab_pre = Inr (projr (distributePartitions ring_ab_pre))"
    by (rule isr_collapse)
  show ?thesis
    using ok ne len pass distribute_load_bound [OF ok ne len pass] by blast
qed

section \<open>The partition table and the load table\<close>

text \<open>
  Claim C4, as the code has it. After \<^verbatim>\<open>New\<close> and any sequence of \<^verbatim>\<open>Add\<close> and
  \<^verbatim>\<open>Remove\<close> calls that all returned and left a member, with a partition count that is
  not negative as an \<^verbatim>\<open>int\<close>, the partition table has exactly the keys \<open>0, \<dots>, P - 1\<close> and
  each of them maps to a current member. The keys of the load table are the names of the
  members that own at least one partition: a member without partitions has no entry.
\<close>

theorem partition_table_total:
  assumes "New ms cfg = Inr c0" and "exec c0 calls = Inr c"
    and "members c \<noteq> []" and "unat (partitionCount c) \<le> 2 ^ 63"
  shows "dom (partitions c) = {0..<int (unat (partitionCount c))} \<and>
         (\<forall>p m. partitions c p = Some m \<longrightarrow> map_of (members c) (String m) = Some m) \<and>
         dom (loads c) = String ` ran (partitions c) \<and>
         dom (loads c) \<subseteq> fst ` set (members c)"
proof -
  have "reachable c"
    using assms(1,2) by (blast intro: reachable_New exec_reachable)
  then have inv: "state_inv c"
    by (rule reachable_state_inv)
  with assms(3) have dom: "dom (partitions c) = part_key ` {0..<unat (partitionCount c)}"
    and owners: "\<forall>p m. partitions c p = Some m \<longrightarrow> String m \<in> names c"
    and keys: "dom (loads c) = String ` ran (partitions c)"
    by (simp_all add: state_inv_def table_inv_def)
  have mem: "\<forall>n m. map_of (members c) n = Some m \<longrightarrow> String m = n"
    using inv by (simp add: state_inv_def ring_ok_def members_inv_def)
  have "map_of (members c) (String m) = Some m" if "partitions c p = Some m" for p m
  proof -
    from owners that have "String m \<in> dom (map_of (members c))"
      by (simp add: names_dom)
    then obtain m' where m': "map_of (members c) (String m) = Some m'"
      by auto
    with mem have "String m' = String m"
      by blast
    with m' show ?thesis
      by (simp add: String_inj)
  qed
  moreover have "dom (loads c) \<subseteq> fst ` set (members c)"
    using keys owners by (auto simp: ran_def names_def)
  ultimately show ?thesis
    using dom keys part_key_image_small [OF assms(4)] by simp
qed

text \<open>
  An empty ring, then \<open>a\<close> and \<open>b\<close> added.
\<close>

theorem partition_table_total_witness:
  "New None (test_config 2 2) = Inr ring0 \<and>
   exec ring0 [CallAdd (Member ''a''), CallAdd (Member ''b'')] = Inr ring_ab \<and>
   members ring_ab \<noteq> [] \<and> unat (partitionCount ring_ab) \<le> 2 ^ 63 \<and>
   dom (partitions ring_ab) = {0..<int (unat (partitionCount ring_ab))} \<and>
   partitions ring_ab 1 = Some (Member ''a'') \<and>
   map_of (members ring_ab) (String (Member ''a'')) = Some (Member ''a'') \<and>
   dom (loads ring_ab) = String ` ran (partitions ring_ab) \<and>
   dom (loads ring_ab) \<subseteq> fst ` set (members ring_ab)"
proof -
  have "\<not> isl (New None (test_config 2 2))"
    by code_simp
  then have new: "New None (test_config 2 2) = Inr ring0"
    unfolding ring0_def by (rule isr_collapse)
  have "\<not> isl (exec ring0 [CallAdd (Member ''a''), CallAdd (Member ''b'')])"
    by code_simp
  then have run: "exec ring0 [CallAdd (Member ''a''), CallAdd (Member ''b'')] = Inr ring_ab"
    unfolding ring_ab_def by (rule isr_collapse)
  have ne: "members ring_ab \<noteq> []"
    by code_simp
  have "unat (partitionCount ring_ab) = 2"
    by code_simp
  then have P: "unat (partitionCount ring_ab) \<le> 2 ^ 63"
    by simp
  have owner: "partitions ring_ab 1 = Some (Member ''a'')"
    by code_simp
  show ?thesis
    using new run ne P owner partition_table_total [OF new run ne P] by blast
qed

text \<open>
  Claim C4 as worded fails for the keys of the load table: in that state \<open>b\<close> is a member
  and owns no partition, and the load table has no key \<open>b\<close>.
\<close>

theorem load_table_keys_counterexample:
  "\<not> isl (New None (test_config 2 2)) \<and>
   \<not> isl (exec ring0 [CallAdd (Member ''a''), CallAdd (Member ''b'')]) \<and>
   map_of (members ring_ab) ''b'' = Some (Member ''b'') \<and> loads ring_ab ''b'' = None \<and>
   loads ring_ab ''a'' = Some 2 \<and>
   partitions ring_ab 0 = Some (Member ''a'') \<and> partitions ring_ab 1 = Some (Member ''a'')"
  by code_simp

section \<open>Removing the last member\<close>

text \<open>
  What \<^verbatim>\<open>Remove\<close> does to the last member, in every state: the partition table and the
  member map are emptied and the load table is left as it was.
\<close>

lemma Remove_sole_member:
  assumes "map fst (members c) = [name]" and "Remove c name = Inr c'"
  shows "members c' = [] \<and> partitions c' = Map.empty \<and> loads c' = loads c"
proof -
  from assms(1) obtain m where m: "members c = [(name, m)]"
    by (cases "members c") auto
  then have "map_of (members c) name \<noteq> None"
    by simp
  with assms(2) m show ?thesis
    by (auto simp: Remove_def Let_def fold_remove_step)
qed

text \<open>
  Claim C5 does not hold of the code. \<^verbatim>\<open>Remove\<close> resets \<^verbatim>\<open>c.partitions\<close> when the
  last member goes, and leaves \<^verbatim>\<open>c.loads\<close> alone: after \<open>a\<close>, the only member, is
  removed, the partition table is empty and the load table still says that \<open>a\<close> holds two
  partitions.
\<close>

theorem Remove_last_member_keeps_loads:
  "\<not> isl (New None (test_config 2 2)) \<and> \<not> isl (Add ring0 (Member ''a'')) \<and>
   map fst (members ring_a) = [''a''] \<and> loads ring_a ''a'' = Some 2 \<and>
   Remove ring_a ''a'' = Inr (projr (Remove ring_a ''a'')) \<and>
   members (projr (Remove ring_a ''a'')) = [] \<and>
   partitions (projr (Remove ring_a ''a'')) = Map.empty \<and>
   loads (projr (Remove ring_a ''a'')) = loads ring_a \<and>
   loads (projr (Remove ring_a ''a'')) ''a'' = Some 2"
proof -
  have before: "\<not> isl (New None (test_config 2 2)) \<and> \<not> isl (Add ring0 (Member ''a'')) \<and>
      map fst (members ring_a) = [''a''] \<and> loads ring_a ''a'' = Some 2"
    by code_simp
  have "\<not> isl (Remove ring_a ''a'')"
    by code_simp
  then have removed: "Remove ring_a ''a'' = Inr (projr (Remove ring_a ''a''))"
    by (rule isr_collapse)
  have only: "map fst (members ring_a) = [''a'']"
    using before by blast
  have "members (projr (Remove ring_a ''a'')) = [] \<and>
        partitions (projr (Remove ring_a ''a'')) = Map.empty \<and>
        loads (projr (Remove ring_a ''a'')) = loads ring_a"
    using only removed by (rule Remove_sole_member)
  with before removed show ?thesis
    by simp
qed

section \<open>Calls that change nothing\<close>

text \<open>
  Claim C6. \<^verbatim>\<open>Add\<close> of a name that is present and \<^verbatim>\<open>Remove\<close> of a name that is absent
  return the state as it was, every field of it; and an \<^verbatim>\<open>Add\<close> that returned is followed
  by such an \<^verbatim>\<open>Add\<close> if the same member is added again.
\<close>

theorem Add_Remove_noop:
  "(map_of (members c) (String m) \<noteq> None \<longrightarrow> Add c m = Inr c) \<and>
   (map_of (members c) name = None \<longrightarrow> Remove c name = Inr c) \<and>
   (Add c m = Inr c' \<longrightarrow> Add c' m = Inr c')"
proof (intro conjI impI)
  assume "map_of (members c) (String m) \<noteq> None"
  then show "Add c m = Inr c"
    by (simp add: Add_def)
next
  assume "map_of (members c) name = None"
  then show "Remove c name = Inr c"
    by (simp add: Remove_def)
next
  assume a: "Add c m = Inr c'"
  show "Add c' m = Inr c'"
  proof (cases "map_of (members c) (String m) = None")
    case False
    with a show ?thesis
      by (simp add: Add_def)
  next
    case True
    with a have "distributePartitions (add c m) = Inr c'"
      by (simp add: Add_def)
    then have "members c' = AList.update (String m) m (members c)"
      by (simp add: distributePartitions_fields(1) add_members)
    then have "map_of (members c') (String m) = Some m"
      by (simp add: update_conv')
    then show ?thesis
      by (simp add: Add_def)
  qed
qed

text \<open>
  The ring with the one member \<open>a\<close>: adding \<open>a\<close> again and removing \<open>b\<close> change nothing.
\<close>

theorem Add_Remove_noop_witness:
  "map_of (members ring_a) (String (Member ''a'')) \<noteq> None \<and> Add ring_a (Member ''a'') = Inr ring_a \<and>
   map_of (members ring_a) ''b'' = None \<and> Remove ring_a ''b'' = Inr ring_a \<and>
   Add ring0 (Member ''a'') = Inr ring_a"
proof -
  have present: "map_of (members ring_a) (String (Member ''a'')) \<noteq> None"
    by code_simp
  have absent: "map_of (members ring_a) ''b'' = None"
    by code_simp
  have "\<not> isl (Add ring0 (Member ''a''))"
    by code_simp
  then have once: "Add ring0 (Member ''a'') = Inr ring_a"
    unfolding ring_a_def by (rule isr_collapse)
  show ?thesis
    using Add_Remove_noop [of ring_a "Member ''a''" "''b''" ring_a]
      Add_Remove_noop [of ring0 "Member ''a''" "''b''" ring_a] present absent once
    by simp
qed

section \<open>Owners\<close>

text \<open>
  Claim C8. \<^verbatim>\<open>GetPartitionOwner\<close> returns what the partition table holds for the id, and
  \<open>None\<close> (Go's \<^verbatim>\<open>nil\<close>) when it holds nothing; in a reachable state without members the
  table is empty, so the answer is \<open>None\<close> for every id. \<^verbatim>\<open>LocateKey\<close> is
  \<^verbatim>\<open>GetPartitionOwner\<close> after \<^verbatim>\<open>FindPartitionID\<close>.
\<close>

theorem GetPartitionOwner_LocateKey:
  "GetPartitionOwner c partID = partitions c partID \<and>
   (reachable c \<and> members c = [] \<longrightarrow> GetPartitionOwner c partID = None) \<and>
   LocateKey c key =
     (case FindPartitionID c key of Inl e \<Rightarrow> Inl e | Inr p \<Rightarrow> Inr (GetPartitionOwner c p))"
proof -
  have "partitions c partID = None" if "reachable c" "members c = []"
    using reachable_state_inv [OF that(1)] that(2) by (simp add: state_inv_def table_inv_def)
  then show ?thesis
    by (simp add: GetPartitionOwner_def getPartitionOwner_def LocateKey_def split: option.splits)
qed

text \<open>
  The ring built from a \<^verbatim>\<open>nil\<close> slice has no owner for any partition.
\<close>

theorem GetPartitionOwner_LocateKey_witness:
  "reachable ring0 \<and> members ring0 = [] \<and> GetPartitionOwner ring0 0 = None \<and>
   LocateKey ring0 ''k'' = Inr None"
proof -
  have r: "reachable ring0"
    by (rule reachable_ring0)
  have e: "members ring0 = []"
    by code_simp
  have f: "FindPartitionID ring0 ''k'' = Inr 1"
    by code_simp
  from r e GetPartitionOwner_LocateKey [of ring0 0 "''k''"]
  have none0: "GetPartitionOwner ring0 0 = None"
    by blast
  from r e GetPartitionOwner_LocateKey [of ring0 1 "''k''"]
  have "GetPartitionOwner ring0 1 = None"
    and "LocateKey ring0 ''k'' =
           (case FindPartitionID ring0 ''k'' of Inl e \<Rightarrow> Inl e
            | Inr p \<Rightarrow> Inr (GetPartitionOwner ring0 p))"
    by blast+
  then have "LocateKey ring0 ''k'' = Inr None"
    by (simp add: f)
  with r e none0 show ?thesis
    by blast
qed

section \<open>New\<close>

text \<open>
  Claim C9. With a hash function set, \<^verbatim>\<open>New\<close> on an empty slice that is not \<^verbatim>\<open>nil\<close>
  runs the distribute pass on an empty ring and panics at the first partition; on a
  \<^verbatim>\<open>nil\<close> slice it skips the pass and returns a ring whose tables are empty.
\<close>

theorem New_empty_slice_panics:
  assumes "HashFunc cfg \<noteq> None"
  shows "New (Some []) cfg = Inl NotEnoughRoom \<and>
         (\<exists>c. New None cfg = Inr c \<and> partitions c = Map.empty \<and> loads c = Map.empty \<and>
               members c = [] \<and> sortedSet c = [] \<and> ring c = Map.empty)"
proof -
  from assms obtain hf where hf: "HashFunc cfg = Some hf"
    by auto
  let ?c = "empty_ring hf (with_defaults cfg)"
  have "distributePartitions ?c = Inl NotEnoughRoom"
    by (rule distribute_empty_ring) (simp_all add: empty_ring_def with_defaults_PartitionCount)
  then have "New (Some []) cfg = Inl NotEnoughRoom"
    by (simp add: New_def hf add_all_def)
  moreover have "New None cfg = Inr ?c"
    by (simp add: New_def hf add_all_def)
  ultimately show ?thesis
    by (simp add: empty_ring_def)
qed

text \<open>
  Both calls with the test configuration.
\<close>

theorem New_empty_slice_panics_witness:
  "HashFunc (test_config 2 2) \<noteq> None \<and> New (Some []) (test_config 2 2) = Inl NotEnoughRoom \<and>
   (\<exists>c. New None (test_config 2 2) = Inr c \<and> partitions c = Map.empty \<and> loads c = Map.empty \<and>
         members c = [] \<and> sortedSet c = [] \<and> ring c = Map.empty)"
proof -
  have h: "HashFunc (test_config 2 2) \<noteq> None"
    by (simp add: test_config_def)
  show ?thesis
    using h New_empty_slice_panics [OF h] by simp
qed

subsection \<open>Members listed more than once\<close>

lemma count_list_insort: "count_list (insort y xs) x = count_list (y # xs) x"
  by (induction xs) auto

lemma count_list_sort: "count_list (sort xs) x = count_list xs x"
  by (induction xs) (simp_all add: count_list_insort)

lemma count_list_distinct: "distinct xs \<Longrightarrow> x \<in> set xs \<Longrightarrow> count_list xs x = 1"
  by (induction xs) (auto simp: count_list_0_iff)

lemma add_sortedSet_count:
  "count_list (sortedSet (add c m)) h =
     count_list (sortedSet c) h +
     count_list (map (\<lambda>i. hashFunc c (vnode_key (String m) i))
                     [0..<nat (sint (ReplicationFactor (config c)))]) h"
  by (simp add: add_fields count_list_sort)

lemma add_all_count:
  assumes "i < nat (sint (ReplicationFactor (config c)))"
  shows "count_list (sortedSet c) (hashFunc c (vnode_key name i)) + count_list (map String ms) name
           \<le> count_list (sortedSet (add_all ms c)) (hashFunc c (vnode_key name i))"
  using assms
proof (induction ms arbitrary: c)
  case Nil
  then show ?case by (simp add: add_all_def)
next
  case (Cons m ms)
  let ?h = "hashFunc c (vnode_key name i)"
  let ?hs = "map (\<lambda>i. hashFunc c (vnode_key (String m) i)) [0..<nat (sint (ReplicationFactor (config c)))]"
  have step: "count_list (sortedSet (add c m)) ?h = count_list (sortedSet c) ?h + count_list ?hs ?h"
    by (rule add_sortedSet_count)
  have "(if String m = name then 1 else 0) \<le> count_list ?hs ?h"
  proof (cases "String m = name")
    case True
    with Cons.prems have "?h \<in> set ?hs"
      by auto
    then have "count_list ?hs ?h \<noteq> 0"
      by (simp add: count_list_0_iff)
    with True show ?thesis by simp
  next
    case False
    then show ?thesis by simp
  qed
  with step have "count_list (sortedSet c) ?h + (if String m = name then 1 else 0)
                   \<le> count_list (sortedSet (add c m)) ?h"
    by simp
  moreover have "count_list (sortedSet (add c m)) ?h + count_list (map String ms) name
                   \<le> count_list (sortedSet (add_all ms (add c m))) ?h"
    using Cons.IH [of "add c m"] Cons.prems by (simp add: add_fields)
  moreover have "add_all (m # ms) c = add_all ms (add c m)"
    by (simp add: add_all_def)
  ultimately show ?case
    by (cases "String m = name") simp_all
qed

lemma add_all_length:
  "length (sortedSet (add_all ms c)) =
     length (sortedSet c) + nat (sint (ReplicationFactor (config c))) * length ms"
proof (induction ms arbitrary: c)
  case Nil
  then show ?case by (simp add: add_all_def)
next
  case (Cons m ms)
  have "add_all (m # ms) c = add_all ms (add c m)"
    by (simp add: add_all_def)
  then show ?case
    by (simp add: Cons.IH add_fields)
qed

lemma add_all_names: "names (add_all ms c) = names c \<union> String ` set ms"
proof (induction ms arbitrary: c)
  case Nil
  then show ?case by (simp add: add_all_def)
next
  case (Cons m ms)
  have "add_all (m # ms) c = add_all ms (add c m)"
    by (simp add: add_all_def)
  moreover have "names (add c m) = insert (String m) (names c)"
    by (simp add: names_def add_fields dom_update)
  ultimately show ?case
    by (simp add: Cons.IH)
qed

text \<open>
  Claim C10. \<open>c\<close> is the ring as the loop of \<^verbatim>\<open>New\<close> over the initial members leaves it.
  A name listed \<open>k\<close> times has each of its \<open>R\<close> virtual-node hashes at least \<open>k\<close> times in
  \<open>sortedSet\<close> (more only if hashes collide), \<open>sortedSet\<close> has \<open>R\<close> entries for every listed
  member, duplicates included, and the member map has the name once. So \<open>sortedSet\<close> has
  duplicates as soon as \<open>k > 1\<close>; and a \<^verbatim>\<open>New\<close> that returns hands out this \<open>sortedSet\<close> and
  this member map.
\<close>

theorem New_keeps_duplicate_members:
  assumes hf: "HashFunc cfg = Some hf"
    and c: "c = add_all ms (empty_ring hf (with_defaults cfg))"
    and i: "i < nat (sint (ReplicationFactor (config c)))"
  shows "count_list (map String ms) name \<le> count_list (sortedSet c) (hf (vnode_key name i)) \<and>
         length (sortedSet c) = nat (sint (ReplicationFactor (config c))) * length ms \<and>
         (0 < count_list (map String ms) name \<longrightarrow> count_list (map fst (members c)) name = 1) \<and>
         (1 < count_list (map String ms) name \<longrightarrow> \<not> distinct (sortedSet c)) \<and>
         (New (Some ms) cfg = Inr c' \<longrightarrow> sortedSet c' = sortedSet c \<and> members c' = members c)"
proof -
  let ?c0 = "empty_ring hf (with_defaults cfg)"
  have cfg0: "config c = config ?c0" and hf0: "hashFunc ?c0 = hf"
    by (simp_all add: c add_all_fields empty_ring_def)
  have many: "count_list (map String ms) name \<le> count_list (sortedSet c) (hf (vnode_key name i))"
    using add_all_count [of i ?c0 name ms] i by (simp add: c cfg0 hf0 add_all_fields)
  have len: "length (sortedSet c) = nat (sint (ReplicationFactor (config c))) * length ms"
    using add_all_length [of ms ?c0] by (simp add: c add_all_fields) (simp add: empty_ring_def)
  have "ring_ok c"
    unfolding c by (intro add_all_ring_ok empty_ring_ok)
  then have dist: "distinct (map fst (members c))"
    by (simp add: ring_ok_def members_inv_def)
  have once: "count_list (map fst (members c)) name = 1" if "0 < count_list (map String ms) name"
  proof -
    from that have "name \<in> String ` set ms"
      by (metis count_list_0_iff less_numeral_extra(3) set_map)
    then have "name \<in> names c"
      by (simp add: c add_all_names)
    then show ?thesis
      using dist by (intro count_list_distinct) (simp_all add: names_def)
  qed
  have dup: "\<not> distinct (sortedSet c)" if "1 < count_list (map String ms) name"
  proof
    assume d: "distinct (sortedSet c)"
    from that many have pos: "1 < count_list (sortedSet c) (hf (vnode_key name i))"
      by simp
    then have "hf (vnode_key name i) \<in> set (sortedSet c)"
      by (metis count_list_0_iff not_less_zero)
    with d have "count_list (sortedSet c) (hf (vnode_key name i)) = 1"
      by (rule count_list_distinct)
    with pos show False by simp
  qed
  have "sortedSet c' = sortedSet c \<and> members c' = members c" if "New (Some ms) cfg = Inr c'"
  proof -
    from that have "distributePartitions c = Inr c'"
      by (simp add: New_def hf c)
    then show ?thesis
      by (simp add: distributePartitions_fields)
  qed
  with many len once dup show ?thesis
    by blast
qed

text \<open>
  The member \<open>a\<close> listed twice, two virtual nodes.
\<close>

theorem New_keeps_duplicate_members_witness:
  "HashFunc (test_config 2 2) = Some poly_hash \<and>
   (0::nat) < nat (sint (ReplicationFactor (config ring_aa_pre))) \<and>
   count_list (map String [Member ''a'', Member ''a'']) ''a'' = 2 \<and>
   2 \<le> count_list (sortedSet ring_aa_pre) (poly_hash (vnode_key ''a'' 0)) \<and>
   length (sortedSet ring_aa_pre) = 4 \<and>
   count_list (map fst (members ring_aa_pre)) ''a'' = 1 \<and>
   \<not> distinct (sortedSet ring_aa_pre) \<and>
   New (Some [Member ''a'', Member ''a'']) (test_config 2 2)
     = Inr (projr (New (Some [Member ''a'', Member ''a'']) (test_config 2 2))) \<and>
   sortedSet (projr (New (Some [Member ''a'', Member ''a'']) (test_config 2 2))) = sortedSet ring_aa_pre \<and>
   members (projr (New (Some [Member ''a'', Member ''a'']) (test_config 2 2))) = members ring_aa_pre"
proof -
  have hf: "HashFunc (test_config 2 2) = Some poly_hash"
    by (simp add: test_config_def)
  have "nat (sint (ReplicationFactor (config ring_aa_pre))) = 2"
    by code_simp
  then have i: "(0::nat) < nat (sint (ReplicationFactor (config ring_aa_pre)))"
    and r: "nat (sint (ReplicationFactor (config ring_aa_pre))) = 2"
    by simp_all
  have k: "count_list (map String [Member ''a'', Member ''a'']) ''a'' = 2"
    by simp
  have "\<not> isl (New (Some [Member ''a'', Member ''a'']) (test_config 2 2))"
    by code_simp
  then have new: "New (Some [Member ''a'', Member ''a'']) (test_config 2 2)
     = Inr (projr (New (Some [Member ''a'', Member ''a'']) (test_config 2 2)))"
    by (rule isr_collapse)
  show ?thesis
    using New_keeps_duplicate_members [OF hf ring_aa_pre_def i,
        of "''a''" "projr (New (Some [Member ''a'', Member ''a'']) (test_config 2 2))"]
      hf i k new
    by (simp add: r)
qed

section \<open>GetClosestN\<close>

lemma hash_names_None:
  "hash_names c None al acc = (if al = [] then Inr acc else Inl NilDereference)"
  by (cases al; cases acc) auto

lemma kmems_of_Cons: "kmems_of c ((n, m) # al) km = kmems_of c al (km(hashFunc c n \<mapsto> m))"
  by (simp add: kmems_of_def)

lemma hash_names_Some:
  "hash_names c (Some ow) al (ok, ks, km) =
     Inr (if String ow \<in> fst ` set al then hashFunc c (String ow) else ok,
          ks @ map (hashFunc c \<circ> fst) al, kmems_of c al km)"
proof (induction al arbitrary: ok ks km)
  case Nil
  then show ?case by (simp add: kmems_of_def)
next
  case (Cons e al)
  obtain n m where e: "e = (n, m)"
    by (cases e)
  show ?case
    by (cases "n = String ow") (simp_all add: e Cons.IH Let_def kmems_of_Cons fun_upd_def)
qed

lemma kmems_of_other:
  "k \<notin> set (map (hashFunc c \<circ> fst) al) \<Longrightarrow> kmems_of c al km k = km k"
  by (induction al arbitrary: km) (auto simp: kmems_of_def)

lemma kmems_of_entry:
  assumes "distinct (map (hashFunc c \<circ> fst) al)" and "(n, m) \<in> set al"
  shows "kmems_of c al km (hashFunc c n) = Some m"
  using assms
proof (induction al arbitrary: km)
  case Nil
  then show ?case by simp
next
  case (Cons e al)
  obtain n0 m0 where e: "e = (n0, m0)"
    by (cases e)
  have unfold: "kmems_of c (e # al) km = kmems_of c al (km(hashFunc c n0 \<mapsto> m0))"
    by (simp add: kmems_of_Cons e)
  show ?case
  proof (cases "(n, m) = (n0, m0)")
    case True
    have "hashFunc c n0 \<notin> set (map (hashFunc c \<circ> fst) al)"
      using Cons.prems(1) by (simp add: e)
    then have "kmems_of c al (km(hashFunc c n0 \<mapsto> m0)) (hashFunc c n0) = Some m0"
      by (simp add: kmems_of_other)
    with True unfold show ?thesis by simp
  next
    case False
    with Cons.prems(2) have inside: "(n, m) \<in> set al"
      by (auto simp: e)
    have rest: "distinct (map (hashFunc c \<circ> fst) al)"
      using Cons.prems(1) by (simp add: comp_def)
    have "kmems_of c al (km(hashFunc c n0 \<mapsto> m0)) (hashFunc c n) = Some m"
      by (rule Cons.IH [OF rest inside])
    then show ?thesis
      by (simp only: unfold)
  qed
qed

lemma find_owner_found:
  assumes "k \<in> set (drop i ks)"
  shows "\<exists>j. find_owner ks k i = (j, True) \<and> j < length ks \<and> ks ! j = k"
  using assms
proof (induction ks k i rule: find_owner.induct)
  case (1 keys ownerKey idx)
  from "1.prems" have lt: "idx < length keys"
    by (cases "idx < length keys") auto
  show ?case
  proof (cases "keys ! idx = ownerKey")
    case True
    with lt show ?thesis
      by (subst find_owner.simps) simp
  next
    case False
    have "drop idx keys = keys ! idx # drop (Suc idx) keys"
      using lt by (simp add: Cons_nth_drop_Suc)
    with "1.prems" False have "ownerKey \<in> set (drop (idx + 1) keys)"
      by auto
    from "1.IH" [OF lt False this] lt False show ?thesis
      by (subst find_owner.simps) simp
  qed
qed

lemma find_owner_empty: "find_owner [] k 0 = (0, False)"
  by (subst find_owner.simps) simp

lemma closest_loop_Inr:
  assumes "j < length ks" and "\<forall>k\<in>set ks. km k \<noteq> None"
    and "d = nat (count - int (length res))"
  shows "closest_loop ks km count j res =
           Inr (res @ map (\<lambda>t. the (km (ks ! ((j + Suc t) mod length ks)))) [0..<d])"
  using assms
proof (induction d arbitrary: j res)
  case 0
  then show ?case
    by (subst closest_loop.simps) simp
next
  case (Suc d)
  let ?n = "length ks"
  let ?j' = "(j + 1) mod ?n"
  from Suc.prems(3) have more: "int (length res) < count"
    by linarith
  have j': "(if j + 1 \<ge> ?n then 0 else j + 1) = ?j'"
  proof (cases "j + 1 \<ge> ?n")
    case True
    with Suc.prems(1) have "j + 1 = ?n"
      by linarith
    then show ?thesis
      by (simp del: One_nat_def)
  next
    case False
    then show ?thesis
      by simp
  qed
  have "0 < ?n"
    using Suc.prems(1) by linarith
  then have lt': "?j' < ?n"
    by (rule mod_less_divisor)
  then have "ks ! ?j' \<in> set ks"
    by simp
  with Suc.prems(2) obtain m where m: "km (ks ! ?j') = Some m"
    by auto
  have d: "d = nat (count - int (length (res @ [m])))"
    using Suc.prems(3) by simp
  have shift: "Suc (Suc j mod ?n + t) mod ?n = Suc (Suc (j + t)) mod ?n" for t
  proof -
    have "((j + 1) mod ?n + Suc t) mod ?n = ((j + 1) + Suc t) mod ?n"
      by (rule mod_add_left_eq)
    then show ?thesis
      by simp
  qed
  have "closest_loop ks km count j res = closest_loop ks km count ?j' (res @ [m])"
    using more lt' m by (subst closest_loop.simps) (simp add: j' Let_def del: One_nat_def)
  also have "\<dots> = Inr ((res @ [m]) @ map (\<lambda>t. the (km (ks ! ((?j' + Suc t) mod ?n)))) [0..<d])"
    by (rule Suc.IH [OF lt' Suc.prems(2) d])
  also have "(res @ [m]) @ map (\<lambda>t. the (km (ks ! ((?j' + Suc t) mod ?n)))) [0..<d]
               = res @ map (\<lambda>t. the (km (ks ! ((j + Suc t) mod ?n)))) [0..<Suc d]"
    using m by (simp add: map_upt_Suc shift del: upt_Suc)
  finally show ?case .
qed

lemma closest_loop_done:
  "count \<le> int (length res) \<Longrightarrow> closest_loop ks km count j res = Inr res"
  by (subst closest_loop.simps) simp

lemma mod_shift_inj:
  fixes j t1 t2 n :: nat
  assumes "t1 < n" "t2 < n" "(j + t1) mod n = (j + t2) mod n"
  shows "t1 = t2"
proof -
  from assms(3) obtain q1 q2 where "j + t1 + n * q1 = j + t2 + n * q2"
    by (auto simp: nat_mod_eq_iff)
  then have "t1 + n * q1 = t2 + n * q2"
    by simp
  then have "t1 mod n = t2 mod n"
    unfolding nat_mod_eq_iff by blast
  then show ?thesis
    using assms(1,2) by simp
qed

text \<open>
  With an owner in the table and \<open>count\<close> within the member count, \<^verbatim>\<open>getClosestN\<close>
  returns the owner followed by its successors in the order of the hashed names.
\<close>

lemma getClosestN_owner:
  assumes inv: "state_inv c" and inj: "inj_on (hashFunc c) (fst ` set (members c))"
    and owner: "partitions c partID = Some ow" and le: "count \<le> int (length (members c))"
  shows "\<exists>res. getClosestN c partID count = Inr res \<and> length res = Suc (nat (count - 1)) \<and>
               distinct res \<and> set res \<subseteq> snd ` set (members c) \<and> hd res = ow"
proof -
  let ?al = "members c"
  let ?hf = "hashFunc c"
  let ?keys = "map (?hf \<circ> fst) ?al"
  let ?sk = "sort ?keys"
  let ?kM = "kmems_of c ?al Map.empty"
  let ?n = "length ?sk"
  let ?d = "nat (count - 1)"
  have minv: "members_inv c" and tinv: "table_inv c"
    using inv by (simp_all add: state_inv_def ring_ok_def)
  have dist_names: "distinct (map fst ?al)"
    using minv by (simp add: members_inv_def)
  have entry: "String m = n" if "(n, m) \<in> set ?al" for n m
    using that minv dist_names by (simp add: members_inv_def)
  have ne: "?al \<noteq> []"
    using tinv owner by (auto simp: table_inv_def split: if_splits)
  have "String ow \<in> fst ` set ?al"
    using tinv owner ne by (simp add: table_inv_def names_def)
  then obtain m' where m': "(String ow, m') \<in> set ?al"
    by auto
  with entry have "String m' = String ow"
    by simp
  then have "m' = ow"
    by (rule String_inj)
  with m' have ow_in: "(String ow, ow) \<in> set ?al"
    by simp
  have "distinct (map ?hf (map fst ?al))"
    by (rule iffD2 [OF distinct_map]) (simp only: set_map dist_names inj simp_thms)
  then have dk: "distinct ?keys"
    by (simp only: map_map)
  then have dsk: "distinct ?sk"
    by simp
  have n_len: "?n = length ?al"
    by simp
  have kM_entry: "?kM (?hf n) = Some m" if "(n, m) \<in> set ?al" for n m
    using dk that by (rule kmems_of_entry)
  have at: "\<exists>n1 m1. (n1, m1) \<in> set ?al \<and> ?sk ! i = ?hf n1 \<and> ?kM (?sk ! i) = Some m1"
    if "i < ?n" for i
  proof -
    from that have "?sk ! i \<in> set ?sk"
      by (rule nth_mem)
    then have "?sk ! i \<in> set ?keys"
      by simp
    then obtain e where e: "e \<in> set ?al" "?sk ! i = ?hf (fst e)"
      by auto
    then have "(fst e, snd e) \<in> set ?al"
      by simp
    from kM_entry [OF this] e show ?thesis
      by (metis prod.collapse)
  qed
  have all_def: "\<forall>k\<in>set ?sk. ?kM k \<noteq> None"
  proof
    fix k
    assume "k \<in> set ?sk"
    then obtain i where "i < ?n" "?sk ! i = k"
      unfolding in_set_conv_nth by blast
    with at [of i] show "?kM k \<noteq> None"
      by auto
  qed
  have hn: "hash_names c (Some ow) ?al (0, [], Map.empty) = Inr (?hf (String ow), ?keys, ?kM)"
    using ow_in by (subst hash_names_Some) (auto simp: image_iff)
  have "?hf (fst (String ow, ow)) \<in> (\<lambda>e. ?hf (fst e)) ` set ?al"
    using ow_in by (rule imageI)
  then have "?hf (String ow) \<in> set (drop 0 ?sk)"
    by (simp add: comp_def)
  from find_owner_found [OF this]
  obtain j where fo: "find_owner ?sk (?hf (String ow)) 0 = (j, True)"
    and j: "j < ?n" and skj: "?sk ! j = ?hf (String ow)"
    by blast
  have kMj: "?kM (?sk ! j) = Some ow"
    using kM_entry [OF ow_in] by (simp add: skj)
  define G where "G t = the (?kM (?sk ! ((j + t) mod ?n)))" for t
  have G0: "G 0 = ow"
    using j kMj by (simp add: G_def)
  have "closest_loop ?sk ?kM count j [ow] =
          Inr ([ow] @ map (\<lambda>t. the (?kM (?sk ! ((j + Suc t) mod ?n)))) [0..<?d])"
    by (rule closest_loop_Inr [OF j all_def]) simp
  also have "[ow] @ map (\<lambda>t. the (?kM (?sk ! ((j + Suc t) mod ?n)))) [0..<?d] = map G [0..<Suc ?d]"
    by (simp add: map_upt_Suc G0 del: upt_Suc) (simp add: G_def)
  finally have cl: "closest_loop ?sk ?kM count j [ow] = Inr (map G [0..<Suc ?d])" .
  have result: "getClosestN c partID count = Inr (map G [0..<Suc ?d])"
    using le by (simp add: getClosestN_def getPartitionOwner_def owner hn fo kMj cl Let_def)
  have d_le: "Suc ?d \<le> ?n"
  proof -
    have "1 \<le> length ?al"
      using ne by (cases ?al) simp_all
    with le show ?thesis
      by (simp only: n_len)
  qed
  have G_at: "\<exists>n1. (n1, G t) \<in> set ?al \<and> ?sk ! ((j + t) mod ?n) = ?hf n1" for t
  proof -
    have "(j + t) mod ?n < ?n"
      using j by (intro mod_less_divisor) linarith
    from at [OF this] show ?thesis
      by (auto simp: G_def)
  qed
  have "inj_on G (set [0..<Suc ?d])"
  proof (rule inj_onI)
    fix t1 t2
    assume t1: "t1 \<in> set [0..<Suc ?d]" and t2: "t2 \<in> set [0..<Suc ?d]" and eq: "G t1 = G t2"
    from G_at [of t1] obtain n1 where n1: "(n1, G t1) \<in> set ?al" "?sk ! ((j + t1) mod ?n) = ?hf n1"
      by blast
    from G_at [of t2] obtain n2 where n2: "(n2, G t2) \<in> set ?al" "?sk ! ((j + t2) mod ?n) = ?hf n2"
      by blast
    have "n1 = n2"
      using entry [OF n1(1)] entry [OF n2(1)] eq by simp
    with n1(2) n2(2) have same: "?sk ! ((j + t1) mod ?n) = ?sk ! ((j + t2) mod ?n)"
      by simp
    have lt1: "(j + t1) mod ?n < ?n" and lt2: "(j + t2) mod ?n < ?n"
      using j by (intro mod_less_divisor; linarith)+
    from same have "(j + t1) mod ?n = (j + t2) mod ?n"
      using dsk lt1 lt2 by (simp only: nth_eq_iff_index_eq)
    moreover have "t1 < ?n" "t2 < ?n"
      using t1 t2 d_le by auto
    ultimately show "t1 = t2"
      using mod_shift_inj by blast
  qed
  then have "distinct (map G [0..<Suc ?d])"
    by (simp add: distinct_map del: upt_Suc)
  moreover have "set (map G [0..<Suc ?d]) \<subseteq> snd ` set ?al"
  proof
    fix m
    assume "m \<in> set (map G [0..<Suc ?d])"
    then obtain t where "m = G t"
      by auto
    with G_at [of t] show "m \<in> snd ` set ?al"
      by (auto simp: image_iff intro: bexI [where x = "(n1, G t)" for n1])
  qed
  moreover have "hd (map G [0..<Suc ?d]) = ow"
    by (simp add: upt_conv_Cons G0 del: upt_Suc)
  moreover have "length (map G [0..<Suc ?d]) = Suc ?d"
    by simp
  ultimately show ?thesis
    using result by blast
qed

lemma getClosestN_error_iff:
  assumes inv: "state_inv c" and inj: "inj_on (hashFunc c) (fst ` set (members c))"
  shows "getClosestN c partID count = Inl ErrInsufficientMemberCount
           \<longleftrightarrow> int (length (members c)) < count"
proof
  assume "int (length (members c)) < count"
  then show "getClosestN c partID count = Inl ErrInsufficientMemberCount"
    by (simp add: getClosestN_def)
next
  assume err: "getClosestN c partID count = Inl ErrInsufficientMemberCount"
  show "int (length (members c)) < count"
  proof (rule ccontr)
    assume "\<not> int (length (members c)) < count"
    then have le: "count \<le> int (length (members c))"
      by simp
    show False
    proof (cases "partitions c partID")
      case (Some ow)
      from getClosestN_owner [OF inv inj Some le] err show False
        by auto
    next
      case None
      show False
      proof (cases "members c = []")
        case True
        with le have "count \<le> 0"
          by simp
        then have "getClosestN c partID count = Inr []"
          using True
          by (simp add: getClosestN_def hash_names_None find_owner_empty closest_loop_done)
        with err show False by simp
      next
        case False
        with le None have "getClosestN c partID count = Inl NilDereference"
          by (simp add: getClosestN_def getPartitionOwner_def hash_names_None)
        with err show False by simp
      qed
    qed
  qed
qed

lemma FindPartitionID_in_table:
  assumes inv: "state_inv c" and ne: "members c \<noteq> []"
  shows "\<exists>p. FindPartitionID c key = Inr p \<and> p \<in> dom (partitions c)"
proof -
  let ?P = "partitionCount c"
  let ?w = "hashFunc c key mod ?P"
  have P: "?P \<noteq> 0"
    using inv by (simp add: state_inv_def)
  then have "0 < ?P"
    by (simp add: word_greater_zero_iff)
  then have "?w < ?P"
    by (rule word_mod_less_divisor)
  then have "unat ?w < unat ?P"
    by (simp add: word_less_nat_alt)
  moreover have "part_key (unat ?w) = int_of_uint64 ?w"
    by (simp add: part_key_def)
  moreover have "dom (partitions c) = part_key ` {0..<unat ?P}"
    using inv ne by (simp add: state_inv_def table_inv_def)
  ultimately have "int_of_uint64 ?w \<in> dom (partitions c)"
    by (metis atLeastLessThan_iff image_eqI zero_le)
  then show ?thesis
    using P by (simp add: FindPartitionID_def)
qed

text \<open>
  Claim C7. In a reachable state whose hash function is injective on the member names,
  \<^verbatim>\<open>GetClosestN\<close> and \<^verbatim>\<open>GetClosestNForPartition\<close> return the insufficient-members error
  exactly when \<open>count\<close> exceeds the number of members. For \<open>1 \<le> count \<le> |M|\<close> they return
  \<open>count\<close> distinct members, the first of which owns the partition (for
  \<^verbatim>\<open>GetClosestNForPartition\<close>: when the partition id is one of the table).
\<close>

theorem GetClosestN_distinct_members:
  assumes reach: "reachable c" and inj: "inj_on (hashFunc c) (fst ` set (members c))"
  shows "(GetClosestN c key count = Inl ErrInsufficientMemberCount
            \<longleftrightarrow> int (length (members c)) < count) \<and>
         (GetClosestNForPartition c partID count = Inl ErrInsufficientMemberCount
            \<longleftrightarrow> int (length (members c)) < count) \<and>
         (1 \<le> count \<and> count \<le> int (length (members c)) \<longrightarrow>
            (\<exists>res. GetClosestN c key count = Inr res \<and> length res = nat count \<and> distinct res \<and>
                   set res \<subseteq> snd ` set (members c) \<and> LocateKey c key = Inr (Some (hd res)))) \<and>
         (1 \<le> count \<and> count \<le> int (length (members c)) \<and> partID \<in> dom (partitions c) \<longrightarrow>
            (\<exists>res. GetClosestNForPartition c partID count = Inr res \<and> length res = nat count \<and>
                   distinct res \<and> set res \<subseteq> snd ` set (members c) \<and>
                   GetPartitionOwner c partID = Some (hd res)))"
proof -
  have inv: "state_inv c"
    using reach by (rule reachable_state_inv)
  then have P: "partitionCount c \<noteq> 0"
    by (simp add: state_inv_def)
  have iff: "getClosestN c p count = Inl ErrInsufficientMemberCount
               \<longleftrightarrow> int (length (members c)) < count" for p
    by (rule getClosestN_error_iff [OF inv inj])
  have 1: "GetClosestN c key count = Inl ErrInsufficientMemberCount
             \<longleftrightarrow> int (length (members c)) < count"
    using P iff by (simp add: GetClosestN_def FindPartitionID_def)
  have 2: "GetClosestNForPartition c partID count = Inl ErrInsufficientMemberCount
             \<longleftrightarrow> int (length (members c)) < count"
    using iff by (simp add: GetClosestNForPartition_def)
  have some: "\<exists>res. getClosestN c p count = Inr res \<and> length res = nat count \<and> distinct res \<and>
                    set res \<subseteq> snd ` set (members c) \<and> partitions c p = Some (hd res)"
    if "1 \<le> count" "count \<le> int (length (members c))" "p \<in> dom (partitions c)" for p
  proof -
    from that(3) obtain ow where ow: "partitions c p = Some ow"
      by auto
    from that(1) have "Suc (nat (count - 1)) = nat count"
      by linarith
    with getClosestN_owner [OF inv inj ow that(2)] ow show ?thesis
      by auto
  qed
  have 3: "\<exists>res. GetClosestN c key count = Inr res \<and> length res = nat count \<and> distinct res \<and>
                 set res \<subseteq> snd ` set (members c) \<and> LocateKey c key = Inr (Some (hd res))"
    if "1 \<le> count" "count \<le> int (length (members c))"
  proof -
    from that have "members c \<noteq> []"
      by auto
    from FindPartitionID_in_table [OF inv this, of key]
    obtain p where p: "FindPartitionID c key = Inr p" "p \<in> dom (partitions c)"
      by blast
    from some [OF that p(2)] show ?thesis
      by (auto simp: GetClosestN_def LocateKey_def GetPartitionOwner_def getPartitionOwner_def p(1))
  qed
  have 4: "\<exists>res. GetClosestNForPartition c partID count = Inr res \<and> length res = nat count \<and>
                 distinct res \<and> set res \<subseteq> snd ` set (members c) \<and>
                 GetPartitionOwner c partID = Some (hd res)"
    if "1 \<le> count" "count \<le> int (length (members c))" "partID \<in> dom (partitions c)"
    using some [OF that]
    by (auto simp: GetClosestNForPartition_def GetPartitionOwner_def getPartitionOwner_def)
  from 1 2 3 4 show ?thesis
    by blast
qed

text \<open>
  The ring with the members \<open>a\<close> and \<open>b\<close>: two members can be had, three cannot.
\<close>

theorem GetClosestN_distinct_members_witness:
  "reachable ring_ab \<and> inj_on (hashFunc ring_ab) (fst ` set (members ring_ab)) \<and>
   length (members ring_ab) = 2 \<and> (0::int) \<in> dom (partitions ring_ab) \<and>
   GetClosestN ring_ab ''k'' 3 = Inl ErrInsufficientMemberCount \<and>
   GetClosestNForPartition ring_ab 0 3 = Inl ErrInsufficientMemberCount \<and>
   (\<exists>res. GetClosestN ring_ab ''k'' 2 = Inr res \<and> length res = 2 \<and> distinct res \<and>
          set res \<subseteq> snd ` set (members ring_ab) \<and> LocateKey ring_ab ''k'' = Inr (Some (hd res))) \<and>
   (\<exists>res. GetClosestNForPartition ring_ab 0 2 = Inr res \<and> length res = 2 \<and> distinct res \<and>
          set res \<subseteq> snd ` set (members ring_ab) \<and> GetPartitionOwner ring_ab 0 = Some (hd res))"
proof -
  have "\<not> isl (exec ring0 [CallAdd (Member ''a''), CallAdd (Member ''b'')])"
    by code_simp
  then have "exec ring0 [CallAdd (Member ''a''), CallAdd (Member ''b'')] = Inr ring_ab"
    unfolding ring_ab_def by (rule isr_collapse)
  with reachable_ring0 have reach: "reachable ring_ab"
    by (rule exec_reachable)
  have m: "members ring_ab = [(''a'', Member ''a''), (''b'', Member ''b'')]"
    by code_simp
  have "hashFunc ring_ab ''a'' \<noteq> hashFunc ring_ab ''b''"
    by code_simp
  then have inj: "inj_on (hashFunc ring_ab) (fst ` set (members ring_ab))"
    by (simp add: m)
  have len: "length (members ring_ab) = 2"
    by (simp add: m)
  have "partitions ring_ab 0 = Some (Member ''a'')"
    by code_simp
  then have p0: "(0::int) \<in> dom (partitions ring_ab)"
    by (rule domI)
  from GetClosestN_distinct_members [OF reach inj, of "''k''" 3 0]
  have three: "GetClosestN ring_ab ''k'' 3 = Inl ErrInsufficientMemberCount"
    "GetClosestNForPartition ring_ab 0 3 = Inl ErrInsufficientMemberCount"
    by (simp_all add: len)
  from GetClosestN_distinct_members [OF reach inj, of "''k''" 2 0] p0
  have two: "\<exists>res. GetClosestN ring_ab ''k'' 2 = Inr res \<and> length res = 2 \<and> distinct res \<and>
          set res \<subseteq> snd ` set (members ring_ab) \<and> LocateKey ring_ab ''k'' = Inr (Some (hd res))"
    "\<exists>res. GetClosestNForPartition ring_ab 0 2 = Inr res \<and> length res = 2 \<and> distinct res \<and>
          set res \<subseteq> snd ` set (members ring_ab) \<and> GetPartitionOwner ring_ab 0 = Some (hd res)"
    by (simp_all add: len)
  from reach inj len p0 three two show ?thesis
    by blast
qed

end
